theory Spec2Isabelle
  imports Main "HOL-Library.Sublist" "HOL-Library.List_Lexorder"
begin

section \<open>Text\<close>

text \<open>
  A Python \<open>str\<close> is a sequence of Unicode code points; it is modelled as a list of
  natural numbers, one per code point.  \<open>lit\<close> turns an ASCII literal into such a list.
\<close>

type_synonym ustr = "nat list"

abbreviation lit :: "string \<Rightarrow> ustr" where
  "lit s \<equiv> map of_char s"

text \<open>The characters of \<open>s\<close> from position \<open>i\<close> up to, not including, position \<open>e\<close>.\<close>

abbreviation slice :: "'a list \<Rightarrow> nat \<Rightarrow> nat \<Rightarrow> 'a list" where
  "slice s i e \<equiv> take (e - i) (drop i s)"

text \<open>\<open>sub in s\<close> of Python: \<open>sub\<close> occurs in \<open>s\<close> as a contiguous block.\<close>

fun contains :: "ustr \<Rightarrow> ustr \<Rightarrow> bool" where
  "contains sub [] = (sub = [])"
| "contains sub (c # cs) = (prefix sub (c # cs) \<or> contains sub cs)"

text \<open>\<open>h.split("?")[0]\<close>: everything before the first question mark (code point 63).\<close>

definition strip_query :: "ustr \<Rightarrow> ustr" where
  "strip_query h = takeWhile (\<lambda>c. c \<noteq> 63) h"

text \<open>
  The exceptions the program distinguishes: Playwright's \<open>TimeoutError\<close>, which
  \<open>extract_listing\<close> catches by name, and every other exception.  Both are caught by
  \<open>except Exception\<close>.
\<close>

datatype exn = TimeoutError | OtherError

section \<open>Regular expressions as Python's \<open>re\<close> runs them\<close>

text \<open>
  The Unicode character tables that \<open>re\<close>, \<open>int\<close> and \<open>str.strip\<close> consult are
  not part of the program; the model takes them as a parameter.
  \<^item> \<open>to_decimal\<close>: the decimal value of a code point of category Nd (what \<open>\d\<close>
    matches and \<open>int\<close> reads), \<open>None\<close> for every other code point;
  \<^item> \<open>is_space\<close>: Unicode white space (what \<open>\s\<close> matches and \<open>strip\<close> removes);
  \<^item> \<open>is_alpha\<close>, \<open>is_numeric\<close>: alphabetic and other numeric code points, which
    together with the decimal digits and the underscore are the word characters of \<open>\b\<close>;
  \<^item> \<open>caseless c x\<close>: under \<open>re.IGNORECASE\<close>, the text code point \<open>x\<close> matches
    the pattern character \<open>c\<close>.
\<close>

record ucd =
  to_decimal :: "nat \<Rightarrow> nat option"
  is_space :: "nat \<Rightarrow> bool"
  is_alpha :: "nat \<Rightarrow> bool"
  is_numeric :: "nat \<Rightarrow> bool"
  caseless :: "nat \<Rightarrow> nat \<Rightarrow> bool"

text \<open>
  The tables on ASCII, used to run the functions on examples: the digits \<open>0\<close>--\<open>9\<close>,
  the white space of ASCII and Latin-1, the ASCII letters, and case-insensitive
  comparison of ASCII letters.
\<close>

definition ascii_lower :: "nat \<Rightarrow> nat" where
  "ascii_lower c = (if 65 \<le> c \<and> c \<le> 90 then c + 32 else c)"

definition basic :: ucd where
  "basic = \<lparr> to_decimal = (\<lambda>c. if 48 \<le> c \<and> c \<le> 57 then Some (c - 48) else None),
             is_space = (\<lambda>c. c \<in> {9, 10, 11, 12, 13, 28, 29, 30, 31, 32, 133, 160}),
             is_alpha = (\<lambda>c. (65 \<le> c \<and> c \<le> 90) \<or> (97 \<le> c \<and> c \<le> 122)),
             is_numeric = (\<lambda>c. 48 \<le> c \<and> c \<le> 57),
             caseless = (\<lambda>c x. ascii_lower x = ascii_lower c) \<rparr>"

text \<open>
  The members of a bracketed set: a character, a range, \<open>\d\<close> and \<open>\s\<close>.  The
  patterns of the program as syntax trees: the empty pattern, a literal character, a set,
  \<open>\b\<close>, concatenation, capturing group number one, and greedy repetition
  \<open>{m,n}\<close> (no upper bound for \<open>*\<close> and \<open>+\<close>).
\<close>

datatype item = Ch nat | Range nat nat | Digit | Space

datatype rx = Emp | Lit nat | Set "item list" | Bnd | Cat rx rx | Grp rx | Rep nat "nat option" rx

text \<open>
  \<open>ic\<close> is the flag \<open>re.IGNORECASE\<close>.  It changes how a literal character is
  compared; the classes \<open>\d\<close> and \<open>\s\<close> are not affected by it, and the program has
  no range in a pattern compiled with the flag.
\<close>

fun item_ok :: "ucd \<Rightarrow> bool \<Rightarrow> item \<Rightarrow> nat \<Rightarrow> bool" where
  "item_ok U ic (Ch c) x = (if ic then caseless U c x else x = c)"
| "item_ok U ic (Range lo hi) x = (lo \<le> x \<and> x \<le> hi)"
| "item_ok U ic Digit x = (to_decimal U x \<noteq> None)"
| "item_ok U ic Space x = is_space U x"

definition in_set :: "ucd \<Rightarrow> bool \<Rightarrow> item list \<Rightarrow> nat \<Rightarrow> bool" where
  "in_set U ic its x = list_ex (\<lambda>it. item_ok U ic it x) its"

text \<open>\<open>\b\<close>: exactly one of the characters before and after the position is a word character.\<close>

definition is_word :: "ucd \<Rightarrow> nat \<Rightarrow> bool" where
  "is_word U c = (is_alpha U c \<or> to_decimal U c \<noteq> None \<or> is_numeric U c \<or> c = 95)"

definition word_at :: "ucd \<Rightarrow> ustr \<Rightarrow> nat \<Rightarrow> bool" where
  "word_at U s i = (i < length s \<and> is_word U (s ! i))"

definition at_boundary :: "ucd \<Rightarrow> ustr \<Rightarrow> nat \<Rightarrow> bool" where
  "at_boundary U s i = (word_at U s i \<noteq> (0 < i \<and> word_at U s (i - 1)))"

text \<open>
  A matcher state is the current position and the span of group one, if it has matched.
  The matcher is the backtracking one of \<open>re\<close>: from a state it yields the states in
  which a match of the pattern can end, in the order in which backtracking tries them,
  so the head of the list is the match \<open>re\<close> reports.
\<close>

type_synonym mstate = "nat \<times> (nat \<times> nat) option"

definition one_char :: "ustr \<Rightarrow> (nat \<Rightarrow> bool) \<Rightarrow> mstate \<Rightarrow> mstate list" where
  "one_char s P st = (if fst st < length s \<and> P (s ! fst st) then [(Suc (fst st), snd st)] else [])"

text \<open>
  Greedy repetition of a pattern \<open>f\<close>, at least \<open>m\<close> and at most \<open>k\<close> more times:
  one more round is tried before stopping here.
\<close>

fun rep :: "(mstate \<Rightarrow> mstate list) \<Rightarrow> nat \<Rightarrow> nat \<Rightarrow> mstate \<Rightarrow> mstate list" where
  "rep f m 0 st = (if m = 0 then [st] else [])"
| "rep f m (Suc k) st = concat (map (rep f (m - 1) k) (f st)) @ (if m = 0 then [st] else [])"

text \<open>
  A repetition without upper bound is run at most \<open>length s\<close> times: the repeated
  patterns of the program consume one character per round.
\<close>

primrec match_from :: "ucd \<Rightarrow> bool \<Rightarrow> ustr \<Rightarrow> rx \<Rightarrow> mstate \<Rightarrow> mstate list" where
  "match_from U ic s Emp = (\<lambda>st. [st])"
| "match_from U ic s (Lit c) = one_char s (item_ok U ic (Ch c))"
| "match_from U ic s (Set its) = one_char s (in_set U ic its)"
| "match_from U ic s Bnd = (\<lambda>st. if at_boundary U s (fst st) then [st] else [])"
| "match_from U ic s (Cat a b) = (\<lambda>st. concat (map (match_from U ic s b) (match_from U ic s a st)))"
| "match_from U ic s (Grp a) =
     (\<lambda>st. map (\<lambda>st'. (fst st', Some (fst st, fst st'))) (match_from U ic s a st))"
| "match_from U ic s (Rep m n a) =
     rep (match_from U ic s a) m (case n of None \<Rightarrow> length s | Some k \<Rightarrow> k)"

text \<open>
  \<open>re.search\<close>: the start positions \<open>0, 1, \<dots>, len(s)\<close> are tried in turn; the result
  is the first start with a match, together with the end and the group of that match.
\<close>

fun scan_from :: "(nat \<Rightarrow> mstate list) \<Rightarrow> nat \<Rightarrow> nat \<Rightarrow> (nat \<times> mstate) option" where
  "scan_from f i 0 = None"
| "scan_from f i (Suc n) = (case f i of [] \<Rightarrow> scan_from f (Suc i) n | st # _ \<Rightarrow> Some (i, st))"

definition re_search :: "ucd \<Rightarrow> bool \<Rightarrow> rx \<Rightarrow> ustr \<Rightarrow> (nat \<times> mstate) option" where
  "re_search U ic r s = scan_from (\<lambda>i. match_from U ic s r (i, None)) 0 (Suc (length s))"

text \<open>\<open>m.group(0)\<close> and \<open>m.group(1)\<close>; the latter is \<open>None\<close> for a group that took no part.\<close>

definition group0 :: "ustr \<Rightarrow> nat \<times> mstate \<Rightarrow> ustr" where
  "group0 s m = slice s (fst m) (fst (snd m))"

definition group1 :: "ustr \<Rightarrow> nat \<times> mstate \<Rightarrow> ustr option" where
  "group1 s m = map_option (\<lambda>g. slice s (fst g) (snd g)) (snd (snd m))"

text \<open>A sequence of patterns, and a literal string as a pattern.\<close>

primrec seq :: "rx list \<Rightarrow> rx" where
  "seq [] = Emp"
| "seq (r # rs) = Cat r (seq rs)"

definition str :: "ustr \<Rightarrow> rx" where
  "str w = seq (map Lit w)"

section \<open>Where a pattern occurs in a text\<close>

text \<open>
  The claims speak of occurrences of a pattern in a text.  \<open>run P s i j\<close>: the positions
  from \<open>i\<close> up to, not including, \<open>j\<close> are positions of \<open>s\<close> whose characters
  all satisfy \<open>P\<close>.  \<open>char_at s i P\<close>: position \<open>i\<close> is a position of \<open>s\<close> and its
  character satisfies \<open>P\<close>.  \<open>text_at U ic s i w\<close>: the literal \<open>w\<close> stands in \<open>s\<close>
  at position \<open>i\<close>, compared without regard to case when \<open>ic\<close> is set.  A word
  character is a letter, a digit, another numeric character or the underscore, and a
  position is a boundary when exactly one of the characters on its two sides is a word
  character.
\<close>

definition run :: "(nat \<Rightarrow> bool) \<Rightarrow> ustr \<Rightarrow> nat \<Rightarrow> nat \<Rightarrow> bool" where
  "run P s i j = (i \<le> j \<and> list_all (\<lambda>t. t < length s \<and> P (s ! t)) [i..<j])"

definition char_at :: "ustr \<Rightarrow> nat \<Rightarrow> (nat \<Rightarrow> bool) \<Rightarrow> bool" where
  "char_at s i P = (i < length s \<and> P (s ! i))"

definition same_char :: "ucd \<Rightarrow> bool \<Rightarrow> nat \<Rightarrow> nat \<Rightarrow> bool" where
  "same_char U ic c x = (if ic then caseless U c x else x = c)"

fun text_at :: "ucd \<Rightarrow> bool \<Rightarrow> ustr \<Rightarrow> nat \<Rightarrow> ustr \<Rightarrow> bool" where
  "text_at U ic s i [] = True"
| "text_at U ic s i (c # w) = (char_at s i (same_char U ic c) \<and> text_at U ic s (Suc i) w)"

definition digit :: "ucd \<Rightarrow> nat \<Rightarrow> bool" where
  "digit U c = (to_decimal U c \<noteq> None)"

definition word_char :: "ucd \<Rightarrow> nat \<Rightarrow> bool" where
  "word_char U c = (c = 95 \<or> is_alpha U c \<or> digit U c \<or> is_numeric U c)"

definition boundary :: "ucd \<Rightarrow> ustr \<Rightarrow> nat \<Rightarrow> bool" where
  "boundary U s i = (char_at s i (word_char U) \<noteq> (0 < i \<and> char_at s (i - 1) (word_char U)))"

definition upper :: "nat \<Rightarrow> bool" where
  "upper c = (65 \<le> c \<and> c \<le> 90)"

definition upalnum :: "nat \<Rightarrow> bool" where
  "upalnum c = (upper c \<or> (48 \<le> c \<and> c \<le> 57))"

section \<open>The pattern extraction functions\<close>

subsection \<open>\<open>extract_license_from_text\<close>\<close>

text \<open>
  Line 97: \<open>\b[A-Z]{3}-[A-Z]{3}-[A-Z0-9]{4,6}\b\<close>, and line 102: \<open>\b\d{6,8}\b\<close>.
  Code point 45 is the hyphen, 65--90 are \<open>A\<close>--\<open>Z\<close> and 48--57 are \<open>0\<close>--\<open>9\<close>.
\<close>

definition license_re :: rx where
  "license_re = seq [Bnd, Rep 3 (Some 3) (Set [Range 65 90]), Lit 45,
                     Rep 3 (Some 3) (Set [Range 65 90]), Lit 45,
                     Rep 4 (Some 6) (Set [Range 65 90, Range 48 57]), Bnd]"

definition digits_re :: rx where
  "digits_re = seq [Bnd, Rep 6 (Some 8) (Set [Digit]), Bnd]"

definition extract_license_from_text :: "ucd \<Rightarrow> ustr \<Rightarrow> ustr" where
  "extract_license_from_text U text =
     (case re_search U False license_re text of
        Some m \<Rightarrow> group0 text m
      | None \<Rightarrow>
         (case re_search U False digits_re text of
            Some m \<Rightarrow> group0 text m
          | None \<Rightarrow> []))"

subsection \<open>\<open>parse_host_stats\<close>\<close>

text \<open>
  Line 119: \<open>(\d+(?:[.,]\d+)?)\s*sur\s*5\<close>; line 124:
  \<open>(\d[\d\s ]*)\s+commentaire\<close> with \<open>re.IGNORECASE\<close>; line 129:
  \<open>H[oX]te depuis\s+(\d{4})\<close> with \<open>re.IGNORECASE\<close>, where \<open>X\<close> stands for the
  letter o with circumflex, code point 244.  Code points 46 and 44 are the full stop and
  the comma, 32 the space, 72 the letter \<open>H\<close>, 111 the letter \<open>o\<close>, 53 the digit five.
\<close>

definition rating_re :: rx where
  "rating_re = seq [Grp (seq [Rep 1 None (Set [Digit]),
                              Rep 0 (Some 1) (seq [Set [Ch 46, Ch 44], Rep 1 None (Set [Digit])])]),
                    Rep 0 None (Set [Space]), str (lit ''sur''),
                    Rep 0 None (Set [Space]), Lit 53]"

definition reviews_re :: rx where
  "reviews_re = seq [Grp (seq [Set [Digit], Rep 0 None (Set [Digit, Space, Ch 32])]),
                     Rep 1 None (Set [Space]), str (lit ''commentaire'')]"

definition years_re :: rx where
  "years_re = seq [Lit 72, Set [Ch 111, Ch 244], str (lit ''te depuis''),
                   Rep 1 None (Set [Space]), Grp (Rep 4 (Some 4) (Set [Digit]))]"

text \<open>\<open>g.replace(",", ".")\<close> and \<open>re.sub(r"[^\d]", "", g)\<close>.\<close>

definition comma_to_dot :: "ustr \<Rightarrow> ustr" where
  "comma_to_dot g = map (\<lambda>c. if c = 44 then 46 else c) g"

definition only_digits :: "ucd \<Rightarrow> ustr \<Rightarrow> ustr" where
  "only_digits U g = filter (\<lambda>c. to_decimal U c \<noteq> None) g"

text \<open>
  \<open>int(g)\<close> for a string of decimal digits; any other string is taken to raise
  \<open>ValueError\<close> (the pattern captures four decimal digits, so nothing else reaches it).
  \<open>str(n)\<close> for an integer.
\<close>

definition py_int :: "ucd \<Rightarrow> ustr \<Rightarrow> int option" where
  "py_int U g =
     (if g \<noteq> [] \<and> list_all (\<lambda>c. to_decimal U c \<noteq> None) g
      then Some (int (foldl (\<lambda>a c. 10 * a + the (to_decimal U c)) 0 g))
      else None)"

fun dec_digits :: "nat \<Rightarrow> ustr" where
  "dec_digits n = (if n < 10 then [48 + n] else dec_digits (n div 10) @ [48 + n mod 10])"

declare dec_digits.simps [simp del]

definition py_str :: "int \<Rightarrow> ustr" where
  "py_str n = (if n < 0 then 45 # dec_digits (nat (- n)) else dec_digits (nat n))"

text \<open>
  The dict that \<open>parse_host_stats\<close> returns; the fields are named after the local
  variables \<open>rating\<close>, \<open>reviews\<close> and \<open>years\<close> that fill it.
\<close>

record host_stats =
  rating :: ustr
  reviews :: ustr
  years :: ustr

text \<open>
  Lines 119--121 and 124--126.  A group that took no part in the match is \<open>None\<close> in
  Python, and calling \<open>replace\<close> on it or passing it to \<open>re.sub\<close> raises.
\<close>

definition parse_rating :: "ucd \<Rightarrow> ustr \<Rightarrow> exn + ustr" where
  "parse_rating U text =
     (case re_search U False rating_re text of
        None \<Rightarrow> Inr []
      | Some m \<Rightarrow> (case group1 text m of None \<Rightarrow> Inl OtherError | Some g \<Rightarrow> Inr (comma_to_dot g)))"

definition parse_reviews :: "ucd \<Rightarrow> ustr \<Rightarrow> exn + ustr" where
  "parse_reviews U text =
     (case re_search U True reviews_re text of
        None \<Rightarrow> Inr []
      | Some m \<Rightarrow> (case group1 text m of None \<Rightarrow> Inl OtherError | Some g \<Rightarrow> Inr (only_digits U g)))"

text \<open>
  Lines 129--137; \<open>Y\<close> is \<open>dt.datetime.utcnow().year\<close>.  Everything after the search
  stands in a \<open>try\<close> whose handler leaves \<open>years\<close> empty.
\<close>

definition parse_years :: "ucd \<Rightarrow> int \<Rightarrow> ustr \<Rightarrow> ustr" where
  "parse_years U Y text =
     (case re_search U True years_re text of
        None \<Rightarrow> []
      | Some m \<Rightarrow>
         (case group1 text m of
            None \<Rightarrow> []
          | Some g \<Rightarrow>
             (case py_int U g of
                None \<Rightarrow> []
              | Some start_year \<Rightarrow> py_str (max 0 (Y - start_year)))))"

definition parse_host_stats :: "ucd \<Rightarrow> int \<Rightarrow> ustr \<Rightarrow> exn + host_stats" where
  "parse_host_stats U Y text =
     (case parse_rating U text of
        Inl e \<Rightarrow> Inl e
      | Inr r \<Rightarrow>
         (case parse_reviews U text of
            Inl e \<Rightarrow> Inl e
          | Inr v \<Rightarrow> Inr \<lparr> rating = r, reviews = v, years = parse_years U Y text \<rparr>))"

subsection \<open>The occurrences the patterns stand for\<close>

text \<open>
  A structured code at \<open>[i, e)\<close>: three upper-case letters, a hyphen, three upper-case
  letters, a hyphen, and four to six upper-case letters or digits.  It stands alone when
  \<open>i\<close> and \<open>e\<close> are word boundaries.  A standalone digit run: six to eight decimal
  digits between two word boundaries.
\<close>

definition code_shape_at :: "ustr \<Rightarrow> nat \<Rightarrow> nat \<Rightarrow> bool" where
  "code_shape_at s i e =
     (run upper s i (i + 3) \<and> char_at s (i + 3) (\<lambda>c. c = 45)
      \<and> run upper s (i + 4) (i + 7) \<and> char_at s (i + 7) (\<lambda>c. c = 45)
      \<and> run upalnum s (i + 8) e \<and> 4 \<le> e - (i + 8) \<and> e - (i + 8) \<le> 6)"

definition structured_at :: "ucd \<Rightarrow> ustr \<Rightarrow> nat \<Rightarrow> nat \<Rightarrow> bool" where
  "structured_at U s i e = (boundary U s i \<and> code_shape_at s i e \<and> boundary U s e)"

definition digits_at :: "ucd \<Rightarrow> ustr \<Rightarrow> nat \<Rightarrow> nat \<Rightarrow> bool" where
  "digits_at U s i e =
     (boundary U s i \<and> run (digit U) s i e \<and> 6 \<le> e - i \<and> e - i \<le> 8 \<and> boundary U s e)"

text \<open>
  A number at \<open>[i, k)\<close>: decimal digits, possibly followed by a full stop or a comma and
  more decimal digits.  \<open>sur5_at U s k e\<close>: from \<open>k\<close> there is optional white space,
  \<open>sur\<close>, optional white space and the digit five, ending at \<open>e\<close>.
\<close>

definition number_at :: "ucd \<Rightarrow> ustr \<Rightarrow> nat \<Rightarrow> nat \<Rightarrow> bool" where
  "number_at U s i k =
     (\<exists>j. run (digit U) s i j \<and> i < j \<and>
          (k = j \<or> (char_at s j (\<lambda>c. c = 46 \<or> c = 44) \<and> run (digit U) s (Suc j) k \<and> Suc j < k)))"

definition sur5_at :: "ucd \<Rightarrow> ustr \<Rightarrow> nat \<Rightarrow> nat \<Rightarrow> bool" where
  "sur5_at U s k e =
     (\<exists>p q. run (is_space U) s k p \<and> text_at U False s p (lit ''sur'') \<and> run (is_space U) s (p + 3) q
           \<and> char_at s q (\<lambda>c. c = 53) \<and> e = Suc q)"

definition rating_at :: "ucd \<Rightarrow> ustr \<Rightarrow> nat \<Rightarrow> nat \<Rightarrow> nat \<Rightarrow> bool" where
  "rating_at U s i k e = (number_at U s i k \<and> sur5_at U s k e)"

text \<open>
  A review count at \<open>[i, k)\<close>: a decimal digit followed by decimal digits, white space
  and spaces; after it at least one white-space character and, without regard to case,
  \<open>commentaire\<close>, ending at \<open>e\<close>.
\<close>

definition reviews_at :: "ucd \<Rightarrow> ustr \<Rightarrow> nat \<Rightarrow> nat \<Rightarrow> nat \<Rightarrow> bool" where
  "reviews_at U s i k e =
     (char_at s i (digit U)
      \<and> run (\<lambda>c. digit U c \<or> is_space U c \<or> caseless U 32 c) s (Suc i) k
      \<and> (\<exists>p. run (is_space U) s k p \<and> k < p \<and> text_at U True s p (lit ''commentaire'')
             \<and> e = p + 11))"

text \<open>
  A host-since year at \<open>[k, k + 4)\<close>: at \<open>i\<close>, without regard to case, the letter
  \<open>H\<close>, then \<open>o\<close> with or without circumflex, then \<open>te depuis\<close>, at least one
  white-space character up to \<open>k\<close>, and four decimal digits.
\<close>

definition years_at :: "ucd \<Rightarrow> ustr \<Rightarrow> nat \<Rightarrow> nat \<Rightarrow> bool" where
  "years_at U s i k =
     (char_at s i (caseless U 72)
      \<and> char_at s (Suc i) (\<lambda>c. caseless U 111 c \<or> caseless U 244 c)
      \<and> text_at U True s (i + 2) (lit ''te depuis'')
      \<and> run (is_space U) s (i + 11) k \<and> i + 11 < k
      \<and> run (digit U) s k (k + 4))"

text \<open>
  The number that four decimal digits at \<open>k\<close> denote, and what it means for a string
  to be the decimal numeral of a natural number: digits \<open>0\<close>--\<open>9\<close> only, no leading
  zero except for zero itself, and the value read from left to right.
\<close>

definition year_value :: "ucd \<Rightarrow> ustr \<Rightarrow> nat \<Rightarrow> nat" where
  "year_value U s k =
     1000 * the (to_decimal U (s ! k)) + 100 * the (to_decimal U (s ! (k + 1)))
     + 10 * the (to_decimal U (s ! (k + 2))) + the (to_decimal U (s ! (k + 3)))"

definition is_decimal_of :: "nat \<Rightarrow> ustr \<Rightarrow> bool" where
  "is_decimal_of n w =
     (w \<noteq> [] \<and> (\<forall>c \<in> set w. 48 \<le> c \<and> c \<le> 57) \<and> (1 < length w \<longrightarrow> hd w \<noteq> 48)
      \<and> foldl (\<lambda>a c. 10 * a + (c - 48)) 0 w = n)"

text \<open>
  Facts of the Unicode tables under which an occurrence that starts at a given position has
  only one reading: a decimal digit is not white space; the full stop, the comma and the
  letter \<open>s\<close> are not digits; the full stop and the comma are not white space; and a
  character that matches the letter \<open>c\<close> without regard to case is not a digit, not
  white space and does not match the space.
\<close>

definition unicode_facts :: "ucd \<Rightarrow> bool" where
  "unicode_facts U =
     ((\<forall>c. digit U c \<longrightarrow> \<not> is_space U c)
      \<and> \<not> digit U 44 \<and> \<not> digit U 46 \<and> \<not> digit U 115
      \<and> \<not> is_space U 44 \<and> \<not> is_space U 46
      \<and> (\<forall>c. caseless U 99 c \<longrightarrow> \<not> digit U c \<and> \<not> is_space U c \<and> \<not> caseless U 32 c))"

section \<open>Discovery: harvesting and de-duplication\<close>

text \<open>
  Lines 40--43 of \<open>collect_listing_urls\<close>: every href that contains \<open>/rooms/\<close> is
  cut at its first question mark and added to the set \<open>seen\<close>.
\<close>

definition harvest :: "ustr list \<Rightarrow> ustr set \<Rightarrow> ustr set" where
  "harvest hrefs seen =
     fold (\<lambda>h s. if contains (lit ''/rooms/'') h then insert (strip_query h) s else s) hrefs seen"

text \<open>
  Line 259 of \<open>scrape_all\<close>: \<open>list(dict.fromkeys(all_listing_urls))\<close>.  A Python dict
  keeps its keys in insertion order, and storing a key that is already present leaves
  its position alone; \<open>dict_fromkeys\<close> is the resulting list of keys.
\<close>

definition dict_add_key :: "'a \<Rightarrow> 'a list \<Rightarrow> 'a list" where
  "dict_add_key k keys = (if k \<in> set keys then keys else keys @ [k])"

definition dict_fromkeys :: "'a list \<Rightarrow> 'a list" where
  "dict_fromkeys xs = fold dict_add_key xs []"

text \<open>
  The specification speaks of hrefs that differ only in their query parameters.  In a URL
  the fragment starts at the first \<open>#\<close> (code point 35) and the query is what stands
  between the first \<open>?\<close> before the fragment and the fragment.  \<open>drop_query\<close> removes
  the query and keeps the fragment; two hrefs differ only in their query when they agree
  after that.
\<close>

definition drop_query :: "ustr \<Rightarrow> ustr" where
  "drop_query h =
     takeWhile (\<lambda>c. c \<noteq> 63) (takeWhile (\<lambda>c. c \<noteq> 35) h) @ dropWhile (\<lambda>c. c \<noteq> 35) h"

definition differ_only_in_query :: "ustr \<Rightarrow> ustr \<Rightarrow> bool" where
  "differ_only_in_query h1 h2 = (drop_query h1 = drop_query h2)"

section \<open>The search discovery crawler\<close>

text \<open>
  What a search-results page answers to \<open>collect_listing_urls\<close>:
  \<^item> \<open>sp_goto\<close>: the exception \<open>page.goto\<close> raises, if any;
  \<^item> \<open>anchors k\<close>: the hrefs of the elements matching \<open>a[href*="/rooms/"]\<close> once the
    page has been scrolled \<open>k\<close> times, in document order, or the exception that
    \<open>evaluate_all\<close> raises;
  \<^item> \<open>scrolled k\<close>: for \<open>k \<ge> 1\<close>, the value of \<open>document.body.scrollHeight\<close>
    after the \<open>k\<close>-th scroll and wait, or the exception raised by the scroll, the wait
    or the evaluation.
\<close>

record search_page =
  sp_goto :: "exn option"
  anchors :: "nat \<Rightarrow> exn + ustr list"
  scrolled :: "nat \<Rightarrow> exn + nat"

text \<open>
  \<open>Array.from(new Set(xs))\<close> of line 38: a JavaScript \<open>Set\<close> keeps its members in
  insertion order, each once.
\<close>

definition js_array_from_set :: "'a list \<Rightarrow> 'a list" where
  "js_array_from_set xs = fold (\<lambda>x ys. if x \<in> set ys then ys else ys @ [x]) xs []"

text \<open>
  The loop of lines 35--56.  \<open>k\<close> counts the scrolls done so far, which is also the
  number of height checks done so far; it is returned with the set so that claims about
  scrolling can be stated.  The loop may run forever, so its result is an option.
\<close>

partial_function (option) scroll_loop ::
  "int \<Rightarrow> search_page \<Rightarrow> nat \<Rightarrow> ustr set \<Rightarrow> int \<Rightarrow> (exn + ustr set \<times> nat) option" where
  "scroll_loop cap p k seen last_height =
     (case anchors p k of
        Inl e \<Rightarrow> Some (Inl e)
      | Inr els \<Rightarrow>
         (let seen' = harvest (js_array_from_set els) seen in
          if cap \<le> int (card seen') then Some (Inr (seen', k))
          else
           (case scrolled p (Suc k) of
              Inl e \<Rightarrow> Some (Inl e)
            | Inr new_height \<Rightarrow>
               if int new_height = last_height then Some (Inr (seen', Suc k))
               else scroll_loop cap p (Suc k) seen' (int new_height))))"

text \<open>\<open>xs[:n]\<close> of Python for an integer \<open>n\<close>, which may be negative.\<close>

definition py_prefix :: "int \<Rightarrow> 'a list \<Rightarrow> 'a list" where
  "py_prefix n xs = (if 0 \<le> n then take (nat n) xs else take (length xs - nat (- n)) xs)"

text \<open>
  \<open>collect_listing_urls\<close>.  \<open>cap\<close> is \<open>MAX_LISTINGS_PER_SEARCH\<close>.  The order in which
  \<open>list(seen)\<close> enumerates a Python set is not fixed by the program; it is the
  parameter \<open>set_order\<close>.  The second component of the result is the number of scrolls.
\<close>

definition collect_listing_urls ::
  "int \<Rightarrow> (ustr set \<Rightarrow> ustr list) \<Rightarrow> search_page \<Rightarrow> (exn + ustr list \<times> nat) option" where
  "collect_listing_urls cap set_order p =
     (case sp_goto p of
        Some e \<Rightarrow> Some (Inl e)
      | None \<Rightarrow>
         (case scroll_loop cap p 0 {} (- 1) of
            None \<Rightarrow> None
          | Some (Inl e) \<Rightarrow> Some (Inl e)
          | Some (Inr (seen, n)) \<Rightarrow> Some (Inr (py_prefix cap (set_order seen), n))))"

text \<open>\<open>set_order\<close> enumerates a finite set: every member once and nothing else.\<close>

definition enumerates :: "('a set \<Rightarrow> 'a list) \<Rightarrow> bool" where
  "enumerates f = (\<forall>S. finite S \<longrightarrow> set (f S) = S \<and> distinct (f S))"

text \<open>
  The discovery set after \<open>k\<close> harvest passes, as the specification describes it: the
  normalised forms of all hrefs containing \<open>/rooms/\<close> that the passes
  \<open>0, \<dots>, k - 1\<close> have seen.
\<close>

definition found :: "search_page \<Rightarrow> nat \<Rightarrow> ustr set" where
  "found p k =
     (\<Union>j \<in> {..<k}. case anchors p j of
                       Inl e \<Rightarrow> {}
                     | Inr els \<Rightarrow> strip_query ` {h \<in> set els. contains (lit ''/rooms/'') h})"

text \<open>
  The height of the page stops changing after \<open>N\<close> scrolls: each of the first \<open>N\<close>
  scrolls changes it and no later scroll does.  \<open>scrolled p 0\<close> stands for the height
  before the first scroll, which the program never reads.
\<close>

definition stops_changing_after :: "search_page \<Rightarrow> nat \<Rightarrow> bool" where
  "stops_changing_after p N =
     (\<forall>j. (1 \<le> j \<and> j \<le> N \<longrightarrow> scrolled p j \<noteq> scrolled p (j - 1))
          \<and> (N < j \<longrightarrow> scrolled p j = scrolled p N))"

text \<open>Two pages used as examples.\<close>

definition static_empty_page :: search_page where
  "static_empty_page = \<lparr> sp_goto = None, anchors = (\<lambda>k. Inr []), scrolled = (\<lambda>k. Inr 800) \<rparr>"

definition query_variants_page :: search_page where
  "query_variants_page =
     \<lparr> sp_goto = None,
       anchors = (\<lambda>k. Inr [lit ''https://a.b/rooms/1?adults=1'', lit ''https://a.b/rooms/1?adults=2'']),
       scrolled = (\<lambda>k. Inr 800) \<rparr>"

definition three_rooms_page :: search_page where
  "three_rooms_page =
     \<lparr> sp_goto = None,
       anchors = (\<lambda>k. Inr [lit ''https://a.b/rooms/1?adults=1'', lit ''https://a.b/rooms/2'',
                            lit ''https://a.b/rooms/3'', lit ''https://a.b/help'']),
       scrolled = (\<lambda>k. Inr 800) \<rparr>"

definition growing_page :: search_page where
  "growing_page =
     \<lparr> sp_goto = None,
       anchors = (\<lambda>k. Inr [lit ''https://a.b/rooms/1'']),
       scrolled = (\<lambda>k. Inr (if k = 0 then 800 else if k = 1 then 1600 else 2400)) \<rparr>"

section \<open>The matcher and the occurrences of a pattern\<close>

lemma scan_from_None:
  "scan_from f i n = None \<longleftrightarrow> (\<forall>j. i \<le> j \<and> j < i + n \<longrightarrow> f j = [])"
proof (induction n arbitrary: i)
  case 0
  show ?case by auto
next
  case (Suc n)
  show ?case
  proof (cases "f i")
    case Nil
    have "(\<forall>j. i \<le> j \<and> j < i + Suc n \<longrightarrow> f j = []) \<longleftrightarrow> (\<forall>j. Suc i \<le> j \<and> j < Suc i + n \<longrightarrow> f j = [])"
    proof
      assume h: "\<forall>j. i \<le> j \<and> j < i + Suc n \<longrightarrow> f j = []"
      show "\<forall>j. Suc i \<le> j \<and> j < Suc i + n \<longrightarrow> f j = []"
      proof (intro allI impI)
        fix j assume "Suc i \<le> j \<and> j < Suc i + n"
        then have "i \<le> j \<and> j < i + Suc n" by arith
        with h show "f j = []" by blast
      qed
    next
      assume h: "\<forall>j. Suc i \<le> j \<and> j < Suc i + n \<longrightarrow> f j = []"
      show "\<forall>j. i \<le> j \<and> j < i + Suc n \<longrightarrow> f j = []"
      proof (intro allI impI)
        fix j assume a: "i \<le> j \<and> j < i + Suc n"
        show "f j = []"
        proof (cases "j = i")
          case True with Nil show ?thesis by simp
        next
          case False
          with a have "Suc i \<le> j \<and> j < Suc i + n" by arith
          with h show ?thesis by blast
        qed
      qed
    qed
    with Nil Suc.IH [of "Suc i"] show ?thesis by simp
  next
    case (Cons a list)
    then have "f i \<noteq> []" by simp
    moreover have "i \<le> i \<and> i < i + Suc n" by simp
    ultimately have "\<not> (\<forall>j. i \<le> j \<and> j < i + Suc n \<longrightarrow> f j = [])" by blast
    with Cons show ?thesis by simp
  qed
qed

lemma scan_from_Some:
  "scan_from f i n = Some (k, st) \<Longrightarrow>
     i \<le> k \<and> k < i + n \<and> f k \<noteq> [] \<and> st = hd (f k) \<and> (\<forall>j. i \<le> j \<and> j < k \<longrightarrow> f j = [])"
proof (induction n arbitrary: i)
  case 0
  then show ?case by simp
next
  case (Suc n)
  show ?case
  proof (cases "f i")
    case Nil
    with Suc.prems have "scan_from f (Suc i) n = Some (k, st)" by simp
    from Suc.IH [OF this] have ih: "Suc i \<le> k" "k < Suc i + n" "f k \<noteq> []" "st = hd (f k)"
      "\<forall>j. Suc i \<le> j \<and> j < k \<longrightarrow> f j = []" by auto
    have "\<forall>j. i \<le> j \<and> j < k \<longrightarrow> f j = []"
    proof (intro allI impI)
      fix j assume a: "i \<le> j \<and> j < k"
      show "f j = []"
      proof (cases "j = i")
        case True with Nil show ?thesis by simp
      next
        case False
        with a have "Suc i \<le> j \<and> j < k" by arith
        with ih(5) show ?thesis by blast
      qed
    qed
    with ih show ?thesis by simp
  next
    case (Cons a list)
    with Suc.prems show ?thesis by auto
  qed
qed

text \<open>
  What \<open>re.search\<close> returns, for a pattern whose matches from a start \<open>i\<close> are described
  by a predicate \<open>Q\<close>: no match anywhere, or a match at the least start that has one.
\<close>

lemma re_search_leftmost:
  assumes bound: "\<And>i e g. Q i e g \<Longrightarrow> i \<le> length s"
    and mem: "\<And>i e g. ((e, g) \<in> set (match_from U ic s r (i, None))) = Q i e g"
  shows "(re_search U ic r s = None \<and> (\<forall>i e g. \<not> Q i e g))
       \<or> (\<exists>i e g. re_search U ic r s = Some (i, e, g) \<and> Q i e g
             \<and> (\<forall>j e' g'. Q j e' g' \<longrightarrow> i \<le> j))"
proof (cases "re_search U ic r s")
  case None
  then have all: "\<forall>j. 0 \<le> j \<and> j < 0 + Suc (length s) \<longrightarrow> match_from U ic s r (j, None) = []"
    unfolding re_search_def scan_from_None by simp
  have "\<not> Q i e g" for i e g
  proof
    assume q: "Q i e g"
    then have "i \<le> length s" by (rule bound)
    with all have "match_from U ic s r (i, None) = []" by simp
    moreover from q have "(e, g) \<in> set (match_from U ic s r (i, None))" by (simp add: mem)
    ultimately show False by simp
  qed
  with None show ?thesis by simp
next
  case (Some m)
  obtain i e g where m: "m = (i, e, g)" by (cases m) auto
  from Some m have "scan_from (\<lambda>i. match_from U ic s r (i, None)) 0 (Suc (length s)) = Some (i, (e, g))"
    by (simp add: re_search_def)
  from scan_from_Some [OF this]
  have ne: "match_from U ic s r (i, None) \<noteq> []"
    and hd: "(e, g) = hd (match_from U ic s r (i, None))"
    and before: "\<forall>j. 0 \<le> j \<and> j < i \<longrightarrow> match_from U ic s r (j, None) = []"
    by auto
  from ne hd have "(e, g) \<in> set (match_from U ic s r (i, None))" by simp
  then have q: "Q i e g" by (simp add: mem)
  have "i \<le> j" if "Q j e' g'" for j e' g'
  proof (rule ccontr)
    assume "\<not> i \<le> j"
    with before have "match_from U ic s r (j, None) = []" by simp
    moreover from that have "(e', g') \<in> set (match_from U ic s r (j, None))" by (simp add: mem)
    ultimately show False by simp
  qed
  with Some m q show ?thesis by blast
qed

lemma run_iff: "run P s i j \<longleftrightarrow> i \<le> j \<and> (\<forall>t. i \<le> t \<and> t < j \<longrightarrow> t < length s \<and> P (s ! t))"
  unfolding run_def list_all_iff by auto

lemma run_le: "run P s i j \<Longrightarrow> i \<le> j"
  by (simp add: run_iff)

lemma run_first: "run P s i j \<Longrightarrow> i < j \<Longrightarrow> i < length s"
  by (simp add: run_iff)

lemma run_bound: "run P s i j \<Longrightarrow> j - i \<le> length s"
proof (cases "j = i")
  case True then show ?thesis by simp
next
  case False
  assume r: "run P s i j"
  with False have "i \<le> j - 1 \<and> j - 1 < j" by (auto simp: run_iff)
  with r have "j - 1 < length s" unfolding run_iff by blast
  then show ?thesis by arith
qed

lemma run_unfold:
  "run P s i j \<longleftrightarrow> j = i \<or> (i < length s \<and> P (s ! i) \<and> run P s (Suc i) j)"
proof
  assume r: "run P s i j"
  show "j = i \<or> (i < length s \<and> P (s ! i) \<and> run P s (Suc i) j)"
  proof (cases "j = i")
    case True then show ?thesis by simp
  next
    case False
    with r have lt: "i < j" by (simp add: run_iff)
    with r have "i < length s \<and> P (s ! i)" by (simp add: run_iff)
    moreover from r lt have "run P s (Suc i) j" by (simp add: run_iff)
    ultimately show ?thesis by simp
  qed
next
  assume "j = i \<or> (i < length s \<and> P (s ! i) \<and> run P s (Suc i) j)"
  then show "run P s i j"
  proof
    assume "j = i" then show ?thesis by (auto simp: run_iff)
  next
    assume a: "i < length s \<and> P (s ! i) \<and> run P s (Suc i) j"
    show ?thesis unfolding run_iff
    proof (intro conjI allI impI)
      from a show "i \<le> j" by (simp add: run_iff)
    next
      fix t assume t: "i \<le> t \<and> t < j"
      show "t < length s"
      proof (cases "t = i")
        case True with a show ?thesis by simp
      next
        case False with t a show ?thesis by (simp add: run_iff)
      qed
    next
      fix t assume t: "i \<le> t \<and> t < j"
      show "P (s ! t)"
      proof (cases "t = i")
        case True with a show ?thesis by simp
      next
        case False with t a show ?thesis by (simp add: run_iff)
      qed
    qed
  qed
qed

lemma set_rep_one_char:
  "set (rep (one_char s P) m k (i, g)) = {(j, g) | j. run P s i j \<and> m \<le> j - i \<and> j - i \<le> k}"
proof (induction k arbitrary: m i)
  case 0
  show ?case by (auto simp: run_iff)
next
  case (Suc k)
  have tail: "(if m = 0 then {(i, g)} else {}) = {(j, g) | j. j = i \<and> m = 0}" by auto
  show ?case
  proof (cases "i < length s \<and> P (s ! i)")
    case True
    then have st: "one_char s P (i, g) = [(Suc i, g)]" by (simp add: one_char_def)
    have "set (rep (one_char s P) m (Suc k) (i, g))
        = set (rep (one_char s P) (m - 1) k (Suc i, g)) \<union> (if m = 0 then {(i, g)} else {})"
      by (simp add: st)
    also have "\<dots> = {(j, g) | j. run P s (Suc i) j \<and> m - 1 \<le> j - Suc i \<and> j - Suc i \<le> k} \<union> {(j, g) | j. j = i \<and> m = 0}"
      unfolding Suc [of "m - 1" "Suc i"] tail ..
    also have "\<dots> = {(j, g) | j. run P s i j \<and> m \<le> j - i \<and> j - i \<le> Suc k}"
    proof -
      have "\<And>j. (run P s (Suc i) j \<and> m - 1 \<le> j - Suc i \<and> j - Suc i \<le> k) \<or> (j = i \<and> m = 0)
           \<longleftrightarrow> run P s i j \<and> m \<le> j - i \<and> j - i \<le> Suc k"
      proof -
        fix j
        have r: "run P s i j \<longleftrightarrow> j = i \<or> run P s (Suc i) j"
          using True run_unfold [of P s i j] by simp
        have le: "run P s (Suc i) j \<Longrightarrow> Suc i \<le> j" by (simp add: run_iff)
        show "(run P s (Suc i) j \<and> m - 1 \<le> j - Suc i \<and> j - Suc i \<le> k) \<or> (j = i \<and> m = 0)
           \<longleftrightarrow> run P s i j \<and> m \<le> j - i \<and> j - i \<le> Suc k"
          using r le by (cases "j = i") auto
      qed
      then show ?thesis by blast
    qed
    finally show ?thesis .
  next
    case False
    then have st: "one_char s P (i, g) = []" by (auto simp: one_char_def)
    have "set (rep (one_char s P) m (Suc k) (i, g)) = {(j, g) | j. j = i \<and> m = 0}"
      by (auto simp: st)
    moreover have "\<And>j. run P s i j \<longleftrightarrow> j = i"
      using False run_unfold [of P s i] by auto
    ultimately show ?thesis by auto
  qed
qed

text \<open>Membership in the matcher's result, construct by construct.\<close>

lemma mem_Cat:
  "st' \<in> set (match_from U ic s (Cat a b) st) \<longleftrightarrow>
     (\<exists>m. m \<in> set (match_from U ic s a st) \<and> st' \<in> set (match_from U ic s b m))"
  by auto

lemma at_boundary_eq: "at_boundary U s i = boundary U s i"
  by (simp add: at_boundary_def boundary_def word_at_def char_at_def is_word_def word_char_def
      digit_def disj_ac)

lemma mem_Bnd: "st' \<in> set (match_from U ic s Bnd st) \<longleftrightarrow> st' = st \<and> boundary U s (fst st)"
  by (auto simp: at_boundary_eq)

lemma mem_Emp: "st' \<in> set (match_from U ic s Emp st) \<longleftrightarrow> st' = st"
  by auto

lemma item_ok_Ch: "item_ok U ic (Ch c) = same_char U ic c"
  by (auto simp: fun_eq_iff same_char_def)

lemma mem_Lit:
  "st' \<in> set (match_from U ic s (Lit c) st) \<longleftrightarrow>
     char_at s (fst st) (same_char U ic c) \<and> st' = (Suc (fst st), snd st)"
  by (auto simp: one_char_def char_at_def item_ok_Ch)

lemma mem_Set:
  "st' \<in> set (match_from U ic s (Set its) st) \<longleftrightarrow>
     char_at s (fst st) (in_set U ic its) \<and> st' = (Suc (fst st), snd st)"
  by (auto simp: one_char_def char_at_def)

lemma mem_Grp:
  "st' \<in> set (match_from U ic s (Grp a) st) \<longleftrightarrow>
     (\<exists>h. (fst st', h) \<in> set (match_from U ic s a st) \<and> snd st' = Some (fst st, fst st'))"
  by (cases st') force

lemma mem_Rep_range:
  "st' \<in> set (match_from U ic s (Rep m (Some n) (Set its)) st) \<longleftrightarrow>
     run (in_set U ic its) s (fst st) (fst st')
     \<and> m \<le> fst st' - fst st \<and> fst st' - fst st \<le> n \<and> snd st' = snd st"
  by (cases st, cases st') (auto simp: set_rep_one_char)

lemma mem_Rep_unbounded:
  "st' \<in> set (match_from U ic s (Rep m None (Set its)) st) \<longleftrightarrow>
     run (in_set U ic its) s (fst st) (fst st') \<and> m \<le> fst st' - fst st \<and> snd st' = snd st"
  using run_bound [of "in_set U ic its" s "fst st" "fst st'"]
  by (cases st, cases st') (auto simp: set_rep_one_char)

lemma mem_Rep_exact:
  "st' \<in> set (match_from U ic s (Rep m (Some m) (Set its)) st) \<longleftrightarrow>
     run (in_set U ic its) s (fst st) (fst st + m) \<and> st' = (fst st + m, snd st)"
  using run_le [of "in_set U ic its" s "fst st" "fst st'"]
  by (cases st, cases st') (auto simp: set_rep_one_char)

lemma mem_Opt:
  "st' \<in> set (match_from U ic s (Rep 0 (Some 1) (Cat a b)) st) \<longleftrightarrow>
     st' \<in> set (match_from U ic s (Cat a b) st) \<or> st' = st"
  by (auto simp: numeral_eq_Suc)

lemma mem_str:
  "st' \<in> set (match_from U ic s (str w) st) \<longleftrightarrow>
     text_at U ic s (fst st) w \<and> st' = (fst st + length w, snd st)"
proof (induction w arbitrary: st)
  case Nil
  show ?case by (simp add: str_def)
next
  case (Cons c w)
  have "st' \<in> set (match_from U ic s (str (c # w)) st) \<longleftrightarrow>
        (\<exists>m. m \<in> set (match_from U ic s (Lit c) st) \<and> st' \<in> set (match_from U ic s (str w) m))"
    unfolding str_def list.map seq.simps mem_Cat ..
  also have "\<dots> \<longleftrightarrow> char_at s (fst st) (same_char U ic c)
        \<and> st' \<in> set (match_from U ic s (str w) (Suc (fst st), snd st))"
    unfolding mem_Lit by blast
  finally show ?case by (simp add: Cons del: match_from.simps)
qed

lemmas mem_rx = mem_Cat mem_Bnd mem_Emp mem_Lit mem_Set mem_Grp

lemma same_char_plain: "same_char U False c = (\<lambda>x. x = c)"
  by (auto simp: fun_eq_iff same_char_def)

lemma same_char_ci: "same_char U True c = caseless U c"
  by (auto simp: fun_eq_iff same_char_def)

lemma in_set_upper: "in_set U ic [Range 65 90] = upper"
  by (auto simp: in_set_def upper_def fun_eq_iff)

lemma in_set_upalnum: "in_set U ic [Range 65 90, Range 48 57] = upalnum"
  by (auto simp: in_set_def upper_def upalnum_def fun_eq_iff)

lemma in_set_digit: "in_set U ic [Digit] = digit U"
  by (auto simp: in_set_def digit_def fun_eq_iff)

lemma in_set_space: "in_set U ic [Space] = is_space U"
  by (auto simp: in_set_def fun_eq_iff)

lemma plus3: "p + 3 = Suc (Suc (Suc p))"
  by simp

lemma plus11: "i + 11 = Suc (Suc (Suc (Suc (Suc (Suc (Suc (Suc (Suc (Suc (Suc i))))))))))"
  by simp

section \<open>License codes\<close>

lemma license_mem:
  "(e, g) \<in> set (match_from U False s license_re (i, None)) \<longleftrightarrow> g = None \<and> structured_at U s i e"
  unfolding license_re_def seq.simps mem_rx mem_Rep_exact
  unfolding mem_Rep_range mem_rx structured_at_def code_shape_at_def
    in_set_upper in_set_upalnum same_char_plain
  by (auto simp del: match_from.simps rep.simps simp: add.commute)

lemma digits_mem:
  "(e, g) \<in> set (match_from U False s digits_re (i, None)) \<longleftrightarrow> g = None \<and> digits_at U s i e"
  unfolding digits_re_def seq.simps mem_rx
  unfolding mem_Rep_range mem_rx digits_at_def in_set_digit
  by (auto simp del: match_from.simps rep.simps)

lemma code_shape_start: "code_shape_at s i e \<Longrightarrow> i < length s"
  unfolding code_shape_at_def using run_first [of upper s i "i + 3"] by simp

lemma digits_start: "digits_at U s i e \<Longrightarrow> i < length s"
  unfolding digits_at_def using run_first [of "digit U" s i e] by auto

text \<open>
  When the letters and digits of a code are word characters, as they are in Unicode, a
  code that stands alone at \<open>i\<close> has only one possible end; a standalone digit run
  always has.
\<close>

lemma boundary_inside_run:
  assumes r: "run P s a e'" and w: "\<forall>c. P c \<longrightarrow> word_char U c" and lo: "a < e" and hi: "e < e'"
  shows "\<not> boundary U s e"
proof -
  from lo hi have in1: "a \<le> e \<and> e < e'" and in2: "a \<le> e - 1 \<and> e - 1 < e'" by arith+
  from r in1 have "e < length s \<and> P (s ! e)" unfolding run_iff by blast
  moreover from r in2 have "e - 1 < length s \<and> P (s ! (e - 1))" unfolding run_iff by blast
  ultimately have "char_at s e (word_char U)" "char_at s (e - 1) (word_char U)"
    using w by (simp_all add: char_at_def)
  with lo show ?thesis by (simp add: boundary_def)
qed

lemma structured_end_unique:
  assumes w: "\<forall>c. upalnum c \<longrightarrow> word_char U c"
    and a: "structured_at U s i e" and b: "structured_at U s i e'"
  shows "e' = e"
proof (rule ccontr)
  assume ne: "e' \<noteq> e"
  from a have ra: "run upalnum s (i + 8) e" "i + 8 < e" "boundary U s e"
    by (auto simp: structured_at_def code_shape_at_def)
  from b have rb: "run upalnum s (i + 8) e'" "i + 8 < e'" "boundary U s e'"
    by (auto simp: structured_at_def code_shape_at_def)
  from ne consider "e < e'" | "e' < e" by arith
  then show False
  proof cases
    case 1
    from boundary_inside_run [OF rb(1) w ra(2) 1] ra(3) show False by simp
  next
    case 2
    from boundary_inside_run [OF ra(1) w rb(2) 2] rb(3) show False by simp
  qed
qed

lemma digits_end_unique:
  assumes a: "digits_at U s i e" and b: "digits_at U s i e'"
  shows "e' = e"
proof (rule ccontr)
  assume ne: "e' \<noteq> e"
  have w: "\<forall>c. digit U c \<longrightarrow> word_char U c" by (simp add: word_char_def)
  from a have ra: "run (digit U) s i e" "i < e" "boundary U s e"
    by (auto simp: digits_at_def)
  from b have rb: "run (digit U) s i e'" "i < e'" "boundary U s e'"
    by (auto simp: digits_at_def)
  from ne consider "e < e'" | "e' < e" by arith
  then show False
  proof cases
    case 1
    from boundary_inside_run [OF rb(1) w ra(2) 1] ra(3) show False by simp
  next
    case 2
    from boundary_inside_run [OF ra(1) w rb(2) 2] rb(3) show False by simp
  qed
qed

lemma license_search:
  "(re_search U False license_re s = None \<and> (\<forall>i e. \<not> structured_at U s i e))
   \<or> (\<exists>i e. re_search U False license_re s = Some (i, e, None) \<and> structured_at U s i e
         \<and> (\<forall>j e'. structured_at U s j e' \<longrightarrow> i \<le> j))"
proof -
  have "(re_search U False license_re s = None
          \<and> (\<forall>i e (g::(nat \<times> nat) option). \<not> (g = None \<and> structured_at U s i e)))
       \<or> (\<exists>i e g. re_search U False license_re s = Some (i, e, g)
             \<and> (g = None \<and> structured_at U s i e)
             \<and> (\<forall>j e' (g'::(nat \<times> nat) option). g' = None \<and> structured_at U s j e' \<longrightarrow> i \<le> j))"
  proof (rule re_search_leftmost [where Q = "\<lambda>i e g. g = None \<and> structured_at U s i e"])
    fix i e g assume "g = None \<and> structured_at U s i e"
    then have "code_shape_at s i e" by (simp add: structured_at_def)
    then have "i < length s" by (rule code_shape_start)
    then show "i \<le> length s" by simp
  next
    fix i e g
    show "((e, g) \<in> set (match_from U False s license_re (i, None)))
          = (g = None \<and> structured_at U s i e)"
      by (rule license_mem)
  qed
  then show ?thesis by blast
qed

lemma digits_search:
  "(re_search U False digits_re s = None \<and> (\<forall>i e. \<not> digits_at U s i e))
   \<or> (\<exists>i e. re_search U False digits_re s = Some (i, e, None) \<and> digits_at U s i e
         \<and> (\<forall>j e'. digits_at U s j e' \<longrightarrow> i \<le> j))"
proof -
  have "(re_search U False digits_re s = None
          \<and> (\<forall>i e (g::(nat \<times> nat) option). \<not> (g = None \<and> digits_at U s i e)))
       \<or> (\<exists>i e g. re_search U False digits_re s = Some (i, e, g)
             \<and> (g = None \<and> digits_at U s i e)
             \<and> (\<forall>j e' (g'::(nat \<times> nat) option). g' = None \<and> digits_at U s j e' \<longrightarrow> i \<le> j))"
  proof (rule re_search_leftmost [where Q = "\<lambda>i e g. g = None \<and> digits_at U s i e"])
    fix i e g assume "g = None \<and> digits_at U s i e"
    then have "digits_at U s i e" by simp
    then have "i < length s" by (rule digits_start)
    then show "i \<le> length s" by simp
  next
    fix i e g
    show "((e, g) \<in> set (match_from U False s digits_re (i, None)))
          = (g = None \<and> digits_at U s i e)"
      by (rule digits_mem)
  qed
  then show ?thesis by blast
qed

text \<open>
  Claim C3, as the specification states it, fails: it promises the first substring of the
  shape three upper-case letters, hyphen, three upper-case letters, hyphen, four to six
  upper-case letters or digits, whenever one exists.  The pattern of the program also
  asks for a word boundary on both sides.  In the text below such a substring starts at
  position 0 (with four, five or six characters after the second hyphen), but the code is
  followed by more letters, no boundary follows any of the three, and the function
  returns the empty string.
\<close>

theorem license_shape_without_boundary_not_returned:
  "code_shape_at (lit ''BUS-MAG-42KDFGH'') 0 12
   \<and> slice (lit ''BUS-MAG-42KDFGH'') 0 12 = lit ''BUS-MAG-42KD''
   \<and> code_shape_at (lit ''BUS-MAG-42KDFGH'') 0 14
   \<and> extract_license_from_text basic (lit ''BUS-MAG-42KDFGH'') = []"
proof -
  have a: "code_shape_at (lit ''BUS-MAG-42KDFGH'') 0 12" by code_simp
  have b: "slice (lit ''BUS-MAG-42KDFGH'') 0 12 = lit ''BUS-MAG-42KD''" by code_simp
  have c: "code_shape_at (lit ''BUS-MAG-42KDFGH'') 0 14" by code_simp
  have d: "extract_license_from_text basic (lit ''BUS-MAG-42KDFGH'') = []" by code_simp
  from a b c d show ?thesis by simp
qed

text \<open>
  Claim C3, amended.  For every input text, \<open>extract_license_from_text\<close> returns the
  first substring that matches the structured pattern and stands between two word
  boundaries, if one exists; otherwise the first standalone run of six to eight digits;
  otherwise the empty string.  "First" is the least start position; the end is the only
  possible one for a digit run, and for a structured code as well when upper-case letters
  and digits are word characters.  When both kinds are present the structured one wins
  wherever the digit run stands, and the result is always one code or empty.
\<close>

theorem license_first_standalone_match:
  "(\<exists>i e. structured_at U s i e \<and> (\<forall>j e'. structured_at U s j e' \<longrightarrow> i \<le> j)
         \<and> ((\<forall>c. upalnum c \<longrightarrow> word_char U c) \<longrightarrow> (\<forall>e'. structured_at U s i e' \<longrightarrow> e' = e))
         \<and> extract_license_from_text U s = slice s i e)
   \<or> ((\<forall>i e. \<not> structured_at U s i e)
       \<and> (\<exists>i e. digits_at U s i e \<and> (\<forall>j e'. digits_at U s j e' \<longrightarrow> i \<le> j)
              \<and> (\<forall>e'. digits_at U s i e' \<longrightarrow> e' = e)
              \<and> extract_license_from_text U s = slice s i e))
   \<or> ((\<forall>i e. \<not> structured_at U s i e) \<and> (\<forall>i e. \<not> digits_at U s i e)
       \<and> extract_license_from_text U s = [])"
proof -
  from license_search [of U s] show ?thesis
  proof (elim disjE conjE exE)
    fix i e
    assume m: "re_search U False license_re s = Some (i, e, None)"
      and at: "structured_at U s i e"
      and least: "\<forall>j e'. structured_at U s j e' \<longrightarrow> i \<le> j"
    have res: "extract_license_from_text U s = slice s i e"
      by (simp add: extract_license_from_text_def m group0_def)
    have uniq: "(\<forall>c. upalnum c \<longrightarrow> word_char U c) \<longrightarrow> (\<forall>e'. structured_at U s i e' \<longrightarrow> e' = e)"
      using structured_end_unique [OF _ at] by blast
    from at least res uniq show ?thesis by blast
  next
    assume none: "re_search U False license_re s = None"
      and no: "\<forall>i e. \<not> structured_at U s i e"
    from digits_search [of U s] show ?thesis
    proof (elim disjE conjE exE)
      fix i e
      assume m: "re_search U False digits_re s = Some (i, e, None)"
        and at: "digits_at U s i e"
        and least: "\<forall>j e'. digits_at U s j e' \<longrightarrow> i \<le> j"
      have res: "extract_license_from_text U s = slice s i e"
        by (simp add: extract_license_from_text_def none m group0_def)
      have uniq: "\<forall>e'. digits_at U s i e' \<longrightarrow> e' = e"
        using digits_end_unique [OF at] by blast
      from no at least res uniq show ?thesis by blast
    next
      assume none': "re_search U False digits_re s = None"
        and no': "\<forall>i e. \<not> digits_at U s i e"
      have "extract_license_from_text U s = []"
        by (simp add: extract_license_from_text_def none none')
      with no no' show ?thesis by blast
    qed
  qed
qed

theorem license_first_standalone_match_witness:
  "structured_at basic (lit ''no 1333701 licence BUS-MAG-42KDF ok'') 19 32
   \<and> (\<exists>i e. structured_at basic (lit ''no 1333701 licence BUS-MAG-42KDF ok'') i e \<and> i \<le> 19
          \<and> extract_license_from_text basic (lit ''no 1333701 licence BUS-MAG-42KDF ok'') = slice (lit ''no 1333701 licence BUS-MAG-42KDF ok'') i e)
   \<and> extract_license_from_text basic (lit ''no 1333701 licence BUS-MAG-42KDF ok'') = lit ''BUS-MAG-42KDF''
   \<and> digits_at basic (lit ''permis no 1333701 valide'') 10 17
   \<and> extract_license_from_text basic (lit ''permis no 1333701 valide'') = lit ''1333701''
   \<and> extract_license_from_text basic (lit ''sans permis'') = []"
proof -
  let ?S = "lit ''no 1333701 licence BUS-MAG-42KDF ok''"
  have a: "structured_at basic ?S 19 32" by code_simp
  have b: "extract_license_from_text basic ?S = lit ''BUS-MAG-42KDF''" by code_simp
  have c: "digits_at basic (lit ''permis no 1333701 valide'') 10 17" by code_simp
  have d: "extract_license_from_text basic (lit ''permis no 1333701 valide'') = lit ''1333701''"
    by code_simp
  have e: "extract_license_from_text basic (lit ''sans permis'') = []" by code_simp
  from license_first_standalone_match [of basic ?S] a
  have "\<exists>i e. structured_at basic ?S i e \<and> i \<le> 19
          \<and> extract_license_from_text basic ?S = slice ?S i e"
    by blast
  with a b c d e show ?thesis by simp
qed

section \<open>Host statistics\<close>

lemma in_set_sep: "in_set U False [Ch 46, Ch 44] = (\<lambda>c. c = 46 \<or> c = 44)"
  by (auto simp: in_set_def fun_eq_iff)

lemma in_set_grouping:
  "in_set U True [Digit, Space, Ch 32] = (\<lambda>c. digit U c \<or> is_space U c \<or> caseless U 32 c)"
  by (auto simp: in_set_def digit_def fun_eq_iff)

lemma in_set_o: "in_set U True [Ch 111, Ch 244] = (\<lambda>c. caseless U 111 c \<or> caseless U 244 c)"
  by (auto simp: in_set_def fun_eq_iff)

lemma rating_mem:
  "(e, g) \<in> set (match_from U False s rating_re (i, None)) \<longleftrightarrow> (\<exists>k. g = Some (i, k) \<and> rating_at U s i k e)"
  unfolding rating_re_def seq.simps mem_rx mem_Opt mem_str
  unfolding mem_Rep_unbounded mem_rx rating_at_def number_at_def sur5_at_def
    in_set_digit in_set_space in_set_sep same_char_plain
  apply (simp del: match_from.simps rep.simps text_at.simps add: Suc_le_eq plus3)
  apply (rule iffI)
   apply (elim exE conjE disjE; simp del: text_at.simps; blast)
  apply (elim exE conjE disjE; simp del: text_at.simps; blast)
  done

lemma reviews_mem:
  "(e, g) \<in> set (match_from U True s reviews_re (i, None)) \<longleftrightarrow> (\<exists>k. g = Some (i, k) \<and> reviews_at U s i k e)"
  unfolding reviews_re_def seq.simps mem_rx mem_str
  unfolding mem_Rep_unbounded mem_rx reviews_at_def in_set_digit in_set_space in_set_grouping
  apply (simp del: match_from.simps rep.simps text_at.simps add: Suc_le_eq)
  apply (rule iffI)
   apply (elim exE conjE disjE; simp del: text_at.simps; blast)
  apply (elim exE conjE disjE; simp del: text_at.simps; blast)
  done

lemma years_mem:
  "(e, g) \<in> set (match_from U True s years_re (i, None)) \<longleftrightarrow>
     (\<exists>k. g = Some (k, k + 4) \<and> e = k + 4 \<and> years_at U s i k)"
  unfolding years_re_def seq.simps mem_rx mem_str mem_Rep_exact
  unfolding mem_Rep_unbounded mem_rx years_at_def in_set_digit in_set_space in_set_o same_char_ci
  apply (simp del: match_from.simps rep.simps text_at.simps add: Suc_le_eq plus11)
  apply (rule iffI)
   apply (elim exE conjE disjE; simp del: text_at.simps; blast)
  apply (elim exE conjE disjE; simp del: text_at.simps; blast)
  done

lemma rating_start: "rating_at U s i k e \<Longrightarrow> i < length s"
  unfolding rating_at_def number_at_def using run_first [of "digit U" s i] by blast

lemma reviews_start: "reviews_at U s i k e \<Longrightarrow> i < length s"
  by (simp add: reviews_at_def char_at_def)

lemma years_start: "years_at U s i k \<Longrightarrow> i < length s"
  by (simp add: years_at_def char_at_def)

lemma rating_search:
  "(re_search U False rating_re s = None \<and> (\<forall>i k e. \<not> rating_at U s i k e))
   \<or> (\<exists>i k e. re_search U False rating_re s = Some (i, e, Some (i, k)) \<and> rating_at U s i k e
         \<and> (\<forall>j k' e'. rating_at U s j k' e' \<longrightarrow> i \<le> j))"
proof -
  have "(re_search U False rating_re s = None
          \<and> (\<forall>i e (g::(nat \<times> nat) option). \<not> (\<exists>k. g = Some (i, k) \<and> rating_at U s i k e)))
       \<or> (\<exists>i e g. re_search U False rating_re s = Some (i, e, g)
             \<and> (\<exists>k. g = Some (i, k) \<and> rating_at U s i k e)
             \<and> (\<forall>j e' (g'::(nat \<times> nat) option).
                   (\<exists>k. g' = Some (j, k) \<and> rating_at U s j k e') \<longrightarrow> i \<le> j))"
  proof (rule re_search_leftmost
      [where Q = "\<lambda>i e g. \<exists>k. g = Some (i, k) \<and> rating_at U s i k e"])
    fix i e and g :: "(nat \<times> nat) option"
    assume "\<exists>k. g = Some (i, k) \<and> rating_at U s i k e"
    then obtain k where "rating_at U s i k e" by blast
    then have "i < length s" by (rule rating_start)
    then show "i \<le> length s" by simp
  next
    fix i e g
    show "((e, g) \<in> set (match_from U False s rating_re (i, None)))
          = (\<exists>k. g = Some (i, k) \<and> rating_at U s i k e)"
      by (rule rating_mem)
  qed
  then show ?thesis by blast
qed

lemma reviews_search:
  "(re_search U True reviews_re s = None \<and> (\<forall>i k e. \<not> reviews_at U s i k e))
   \<or> (\<exists>i k e. re_search U True reviews_re s = Some (i, e, Some (i, k)) \<and> reviews_at U s i k e
         \<and> (\<forall>j k' e'. reviews_at U s j k' e' \<longrightarrow> i \<le> j))"
proof -
  have "(re_search U True reviews_re s = None
          \<and> (\<forall>i e (g::(nat \<times> nat) option). \<not> (\<exists>k. g = Some (i, k) \<and> reviews_at U s i k e)))
       \<or> (\<exists>i e g. re_search U True reviews_re s = Some (i, e, g)
             \<and> (\<exists>k. g = Some (i, k) \<and> reviews_at U s i k e)
             \<and> (\<forall>j e' (g'::(nat \<times> nat) option).
                   (\<exists>k. g' = Some (j, k) \<and> reviews_at U s j k e') \<longrightarrow> i \<le> j))"
  proof (rule re_search_leftmost
      [where Q = "\<lambda>i e g. \<exists>k. g = Some (i, k) \<and> reviews_at U s i k e"])
    fix i e and g :: "(nat \<times> nat) option"
    assume "\<exists>k. g = Some (i, k) \<and> reviews_at U s i k e"
    then obtain k where "reviews_at U s i k e" by blast
    then have "i < length s" by (rule reviews_start)
    then show "i \<le> length s" by simp
  next
    fix i e g
    show "((e, g) \<in> set (match_from U True s reviews_re (i, None)))
          = (\<exists>k. g = Some (i, k) \<and> reviews_at U s i k e)"
      by (rule reviews_mem)
  qed
  then show ?thesis by blast
qed

lemma years_search:
  "(re_search U True years_re s = None \<and> (\<forall>i k. \<not> years_at U s i k))
   \<or> (\<exists>i k. re_search U True years_re s = Some (i, k + 4, Some (k, k + 4)) \<and> years_at U s i k
         \<and> (\<forall>j k'. years_at U s j k' \<longrightarrow> i \<le> j))"
proof -
  have "(re_search U True years_re s = None
          \<and> (\<forall>i e (g::(nat \<times> nat) option).
                \<not> (\<exists>k. g = Some (k, k + 4) \<and> e = k + 4 \<and> years_at U s i k)))
       \<or> (\<exists>i e g. re_search U True years_re s = Some (i, e, g)
             \<and> (\<exists>k. g = Some (k, k + 4) \<and> e = k + 4 \<and> years_at U s i k)
             \<and> (\<forall>j e' (g'::(nat \<times> nat) option).
                   (\<exists>k. g' = Some (k, k + 4) \<and> e' = k + 4 \<and> years_at U s j k) \<longrightarrow> i \<le> j))"
  proof (rule re_search_leftmost
      [where Q = "\<lambda>i e g. \<exists>k. g = Some (k, k + 4) \<and> e = k + 4 \<and> years_at U s i k"])
    fix i e and g :: "(nat \<times> nat) option"
    assume "\<exists>k. g = Some (k, k + 4) \<and> e = k + 4 \<and> years_at U s i k"
    then obtain k where "years_at U s i k" by blast
    then have "i < length s" by (rule years_start)
    then show "i \<le> length s" by simp
  next
    fix i e g
    show "((e, g) \<in> set (match_from U True s years_re (i, None)))
          = (\<exists>k. g = Some (k, k + 4) \<and> e = k + 4 \<and> years_at U s i k)"
      by (rule years_mem)
  qed
  then show ?thesis by blast
qed

lemma run_four:
  assumes "run P s k (k + 4)"
  shows "k + 3 < length s \<and> P (s ! k) \<and> P (s ! (k + 1)) \<and> P (s ! (k + 2)) \<and> P (s ! (k + 3))
       \<and> slice s k (k + 4) = [s ! k, s ! (k + 1), s ! (k + 2), s ! (k + 3)]"
proof -
  from assms have all: "\<forall>t. k \<le> t \<and> t < k + 4 \<longrightarrow> t < length s \<and> P (s ! t)"
    by (simp add: run_iff)
  have p0: "k < length s \<and> P (s ! k)" using all by simp
  have p1: "k + 1 < length s \<and> P (s ! (k + 1))" using all by simp
  have p2: "k + 2 < length s \<and> P (s ! (k + 2))" using all by simp
  have p3: "k + 3 < length s \<and> P (s ! (k + 3))" using all by simp
  have d0: "drop k s = s ! k # drop (Suc k) s" using p0 by (simp add: Cons_nth_drop_Suc)
  have d1: "drop (Suc k) s = s ! (k + 1) # drop (Suc (Suc k)) s"
    using p1 by (simp add: Cons_nth_drop_Suc)
  have d2: "drop (Suc (Suc k)) s = s ! (k + 2) # drop (Suc (Suc (Suc k))) s"
    using p2 Cons_nth_drop_Suc [of "Suc (Suc k)" s] by simp
  have d3: "drop (Suc (Suc (Suc k))) s = s ! (k + 3) # drop (Suc (Suc (Suc (Suc k)))) s"
    using p3 Cons_nth_drop_Suc [of "Suc (Suc (Suc k))" s] by (simp add: numeral_3_eq_3)
  have "take 4 (drop k s) = [s ! k, s ! (k + 1), s ! (k + 2), s ! (k + 3)]"
    unfolding d0 d1 d2 d3 by (simp add: numeral_eq_Suc)
  with p0 p1 p2 p3 show ?thesis by simp
qed

lemma py_int_year:
  assumes "run (digit U) s k (k + 4)"
  shows "py_int U (slice s k (k + 4)) = Some (int (year_value U s k))"
proof -
  from run_four [OF assms]
  have d: "digit U (s ! k)" "digit U (s ! (k + 1))" "digit U (s ! (k + 2))" "digit U (s ! (k + 3))"
    and sl: "slice s k (k + 4) = [s ! k, s ! (k + 1), s ! (k + 2), s ! (k + 3)]"
    by auto
  show ?thesis
    unfolding sl py_int_def year_value_def using d by (simp add: digit_def)
qed

lemma foldl_decimal_snoc:
  "foldl (\<lambda>a c. 10 * a + (c - 48)) 0 (w @ [c]) = 10 * foldl (\<lambda>a c. 10 * a + (c - (48::nat))) 0 w + (c - 48)"
  by simp

lemma dec_digits_decimal: "is_decimal_of n (dec_digits n)"
proof (induction n rule: dec_digits.induct)
  case (1 n)
  show ?case
  proof (cases "n < 10")
    case True
    then have "dec_digits n = [48 + n]" by (simp add: dec_digits.simps)
    with True show ?thesis by (simp add: is_decimal_of_def)
  next
    case False
    let ?w = "dec_digits (n div 10)"
    from False have eq: "dec_digits n = ?w @ [48 + n mod 10]"
      by (subst dec_digits.simps) simp
    from 1 False have ih: "is_decimal_of (n div 10) ?w" by simp
    then have ne: "?w \<noteq> []" and dg: "\<forall>c \<in> set ?w. 48 \<le> c \<and> c \<le> 57"
      and lead: "1 < length ?w \<longrightarrow> hd ?w \<noteq> 48"
      and val: "foldl (\<lambda>a c. 10 * a + (c - 48)) 0 ?w = n div 10"
      by (simp_all add: is_decimal_of_def)
    have hd: "hd ?w \<noteq> 48"
    proof (cases "1 < length ?w")
      case True with lead show ?thesis by simp
    next
      case False
      with ne obtain c where c: "?w = [c]" by (cases ?w) auto
      from val have "c - 48 = n div 10" unfolding c by simp
      moreover from \<open>\<not> n < 10\<close> have "0 < n div 10" by simp
      ultimately show ?thesis unfolding c by auto
    qed
    have v: "foldl (\<lambda>a c. 10 * a + (c - 48)) 0 (?w @ [48 + n mod 10]) = n"
      unfolding foldl_decimal_snoc val by simp
    have m: "48 + n mod 10 \<le> 57" by simp
    show ?thesis
      unfolding eq is_decimal_of_def using ne dg hd v m by (auto simp del: foldl_append)
  qed
qed

text \<open>What the three searches of \<open>parse_host_stats\<close> make of their matches.\<close>

lemma parse_rating_result:
  "((\<forall>i k e. \<not> rating_at U s i k e) \<and> parse_rating U s = Inr [])
   \<or> (\<exists>i k e. rating_at U s i k e \<and> (\<forall>j k' e'. rating_at U s j k' e' \<longrightarrow> i \<le> j)
         \<and> parse_rating U s = Inr (map (\<lambda>c. if c = 44 then 46 else c) (slice s i k)))"
proof -
  from rating_search [of U s] show ?thesis
  proof (elim disjE conjE exE)
    assume "re_search U False rating_re s = None" and "\<forall>i k e. \<not> rating_at U s i k e"
    then show ?thesis by (simp add: parse_rating_def)
  next
    fix i k e
    assume m: "re_search U False rating_re s = Some (i, e, Some (i, k))"
      and at: "rating_at U s i k e"
      and least: "\<forall>j k' e'. rating_at U s j k' e' \<longrightarrow> i \<le> j"
    have "parse_rating U s = Inr (map (\<lambda>c. if c = 44 then 46 else c) (slice s i k))"
      by (simp add: parse_rating_def m group1_def comma_to_dot_def)
    with at least show ?thesis by blast
  qed
qed

lemma parse_reviews_result:
  "((\<forall>i k e. \<not> reviews_at U s i k e) \<and> parse_reviews U s = Inr [])
   \<or> (\<exists>i k e. reviews_at U s i k e \<and> (\<forall>j k' e'. reviews_at U s j k' e' \<longrightarrow> i \<le> j)
         \<and> parse_reviews U s = Inr (filter (digit U) (slice s i k)))"
proof -
  from reviews_search [of U s] show ?thesis
  proof (elim disjE conjE exE)
    assume "re_search U True reviews_re s = None" and "\<forall>i k e. \<not> reviews_at U s i k e"
    then show ?thesis by (simp add: parse_reviews_def)
  next
    fix i k e
    assume m: "re_search U True reviews_re s = Some (i, e, Some (i, k))"
      and at: "reviews_at U s i k e"
      and least: "\<forall>j k' e'. reviews_at U s j k' e' \<longrightarrow> i \<le> j"
    have d: "only_digits U (slice s i k) = filter (digit U) (slice s i k)"
      unfolding only_digits_def by (rule filter_cong) (simp_all add: digit_def)
    have "parse_reviews U s = Inr (only_digits U (slice s i k))"
      by (simp add: parse_reviews_def m group1_def)
    then have "parse_reviews U s = Inr (filter (digit U) (slice s i k))"
      by (simp only: d)
    with at least show ?thesis by blast
  qed
qed

lemma parse_years_result:
  "((\<forall>i k. \<not> years_at U s i k) \<and> parse_years U Y s = [])
   \<or> (\<exists>i k. years_at U s i k \<and> (\<forall>j k'. years_at U s j k' \<longrightarrow> i \<le> j)
         \<and> py_int U (slice s k (k + 4)) = Some (int (year_value U s k))
         \<and> parse_years U Y s = py_str (max 0 (Y - int (year_value U s k)))
         \<and> is_decimal_of (nat (Y - int (year_value U s k))) (parse_years U Y s))"
proof -
  from years_search [of U s] show ?thesis
  proof (elim disjE conjE exE)
    assume "re_search U True years_re s = None" and "\<forall>i k. \<not> years_at U s i k"
    then show ?thesis by (simp add: parse_years_def)
  next
    fix i k
    assume m: "re_search U True years_re s = Some (i, k + 4, Some (k, k + 4))"
      and at: "years_at U s i k"
      and least: "\<forall>j k'. years_at U s j k' \<longrightarrow> i \<le> j"
    from at have "run (digit U) s k (k + 4)" by (simp add: years_at_def)
    from py_int_year [OF this]
    have pi: "py_int U (slice s k (k + 4)) = Some (int (year_value U s k))" .
    from pi have res: "parse_years U Y s = py_str (max 0 (Y - int (year_value U s k)))"
      by (simp add: parse_years_def m group1_def)
    have "py_str (max 0 (Y - int (year_value U s k)))
          = dec_digits (nat (max 0 (Y - int (year_value U s k))))"
      by (simp add: py_str_def)
    also have "nat (max 0 (Y - int (year_value U s k))) = nat (Y - int (year_value U s k))"
      by simp
    finally have "is_decimal_of (nat (Y - int (year_value U s k))) (parse_years U Y s)"
      unfolding res using dec_digits_decimal by simp
    with at least pi res show ?thesis by blast
  qed
qed

text \<open>Under the facts of Unicode an occurrence at a given start has one reading.\<close>

lemma run_end_unique:
  assumes a: "run P s i b" and a': "run P s i b'"
    and e: "\<not> P (s ! b)" and e': "\<not> P (s ! b')"
  shows "b' = b"
proof (rule ccontr)
  assume "b' \<noteq> b"
  then consider "b < b'" | "b' < b" by arith
  then show False
  proof cases
    case 1
    from a have "i \<le> b" by (rule run_le)
    with a' 1 have "P (s ! b)" unfolding run_iff by blast
    with e show False by simp
  next
    case 2
    from a' have "i \<le> b'" by (rule run_le)
    with a 2 have "P (s ! b')" unfolding run_iff by blast
    with e' show False by simp
  qed
qed

lemma run_weaken: "run P s i j \<Longrightarrow> (\<And>c. P c \<Longrightarrow> Q c) \<Longrightarrow> run Q s i j"
  unfolding run_iff by blast

lemma run_join: "run P s i j \<Longrightarrow> run P s j k \<Longrightarrow> run P s i k"
  unfolding run_iff by (metis le_trans not_le)

lemma run_slice_all: "run P s i j \<Longrightarrow> list_all P (slice s i j)"
proof -
  assume r: "run P s i j"
  have "P (slice s i j ! n)" if "n < length (slice s i j)" for n
  proof -
    from that have n: "n < j - i" "i + n < length s" by auto
    then have "slice s i j ! n = s ! (i + n)" by simp
    moreover from n r have "P (s ! (i + n))" unfolding run_iff by simp
    ultimately show ?thesis by simp
  qed
  then show ?thesis by (simp add: list_all_length)
qed

lemma slice_split: "i \<le> k \<Longrightarrow> k \<le> k' \<Longrightarrow> slice s i k' = slice s i k @ slice s k k'"
proof -
  assume "i \<le> k" "k \<le> k'"
  then have "k' - i = (k - i) + (k' - k)" and "drop (k - i) (drop i s) = drop k s" by simp_all
  then show ?thesis by (simp add: take_add)
qed

lemma sur5_stop:
  assumes "sur5_at U s k e"
  shows "k < length s \<and> (is_space U (s ! k) \<or> s ! k = 115)"
proof -
  from assms obtain p where r: "run (is_space U) s k p" and t: "char_at s p (\<lambda>x. x = 115)"
    by (auto simp: sur5_at_def same_char_plain)
  show ?thesis
  proof (cases "p = k")
    case True with t show ?thesis by (simp add: char_at_def)
  next
    case False
    with r have "k < p" using run_le [OF r] by simp
    with r have "k < length s \<and> is_space U (s ! k)" unfolding run_iff by simp
    then show ?thesis by simp
  qed
qed

lemma rating_number_unique:
  assumes u: "unicode_facts U"
    and a: "rating_at U s i k e" and b: "rating_at U s i k' e'"
  shows "k' = k"
proof -
  from u have nd: "\<And>c. is_space U c \<or> c = 115 \<Longrightarrow> \<not> digit U c"
    and sepd: "\<And>c. c = 46 \<or> c = 44 \<Longrightarrow> \<not> digit U c"
    and seps: "\<And>c. c = 46 \<or> c = 44 \<Longrightarrow> \<not> (is_space U c \<or> c = 115)"
    unfolding unicode_facts_def by auto
  from a have "sur5_at U s k e" by (simp add: rating_at_def)
  then have sa: "k < length s \<and> (is_space U (s ! k) \<or> s ! k = 115)" by (rule sur5_stop)
  from b have "sur5_at U s k' e'" by (simp add: rating_at_def)
  then have sb: "k' < length s \<and> (is_space U (s ! k') \<or> s ! k' = 115)" by (rule sur5_stop)
  from a obtain j where ja: "run (digit U) s i j"
    and ca: "k = j \<or> (char_at s j (\<lambda>c. c = 46 \<or> c = 44) \<and> run (digit U) s (Suc j) k)"
    by (auto simp: rating_at_def number_at_def)
  from b obtain j' where jb: "run (digit U) s i j'"
    and cb: "k' = j' \<or> (char_at s j' (\<lambda>c. c = 46 \<or> c = 44) \<and> run (digit U) s (Suc j') k')"
    by (auto simp: rating_at_def number_at_def)
  have ea: "\<not> digit U (s ! j)"
    using ca sa nd sepd by (auto simp: char_at_def)
  have eb: "\<not> digit U (s ! j')"
    using cb sb nd sepd by (auto simp: char_at_def)
  from run_end_unique [OF ja jb ea eb] have jj: "j' = j" .
  show ?thesis
  proof (cases "s ! j = 46 \<or> s ! j = 44")
    case True
    with seps have ns: "\<not> (is_space U (s ! j) \<or> s ! j = 115)" by blast
    with ca sa have ra: "run (digit U) s (Suc j) k" by auto
    from ns cb sb jj have rb: "run (digit U) s (Suc j) k'" by auto
    from sa nd have "\<not> digit U (s ! k)" by blast
    moreover from sb nd have "\<not> digit U (s ! k')" by blast
    ultimately show ?thesis using run_end_unique [OF ra rb] by blast
  next
    case False
    with ca cb jj show ?thesis by (auto simp: char_at_def)
  qed
qed

lemma years_digits_unique:
  assumes u: "unicode_facts U"
    and a: "years_at U s i k" and b: "years_at U s i k'"
  shows "k' = k"
proof -
  from u have ds: "\<And>c. digit U c \<Longrightarrow> \<not> is_space U c" unfolding unicode_facts_def by blast
  from a have ra: "run (is_space U) s (i + 11) k" and da: "run (digit U) s k (k + 4)"
    by (simp_all add: years_at_def)
  from b have rb: "run (is_space U) s (i + 11) k'" and db: "run (digit U) s k' (k' + 4)"
    by (simp_all add: years_at_def)
  from run_four [OF da] ds have "\<not> is_space U (s ! k)" by blast
  moreover from run_four [OF db] ds have "\<not> is_space U (s ! k')" by blast
  ultimately show ?thesis using run_end_unique [OF ra rb] by blast
qed

lemma text_at_first: "text_at U ic s p (c # w) \<Longrightarrow> char_at s p (same_char U ic c)"
  by simp

lemma reviews_digits_unique:
  assumes u: "unicode_facts U"
    and a: "reviews_at U s i k e" and b: "reviews_at U s i k' e'"
  shows "filter (digit U) (slice s i k') = filter (digit U) (slice s i k)"
proof -
  let ?G = "\<lambda>c. digit U c \<or> is_space U c \<or> caseless U 32 c"
  from u have ds: "\<And>c. is_space U c \<Longrightarrow> \<not> digit U c"
    and cg: "\<And>c. caseless U 99 c \<Longrightarrow> \<not> ?G c"
    unfolding unicode_facts_def by blast+
  from a obtain p where ga: "run ?G s (Suc i) k" and sa: "run (is_space U) s k p"
    and ta: "char_at s p (caseless U 99)"
    by (auto simp: reviews_at_def same_char_ci)
  from b obtain p' where gb: "run ?G s (Suc i) k'" and sb: "run (is_space U) s k' p'"
    and tb: "char_at s p' (caseless U 99)"
    by (auto simp: reviews_at_def same_char_ci)
  have wa: "run ?G s (Suc i) p" using run_join [OF ga run_weaken [OF sa]] by blast
  have wb: "run ?G s (Suc i) p'" using run_join [OF gb run_weaken [OF sb]] by blast
  from ta cg have "\<not> ?G (s ! p)" by (simp add: char_at_def)
  moreover from tb cg have "\<not> ?G (s ! p')" by (simp add: char_at_def)
  ultimately have pp: "p' = p" using run_end_unique [OF wa wb] by blast
  have ik: "i \<le> k" "i \<le> k'" using run_le [OF ga] run_le [OF gb] by simp_all
  have kp: "k \<le> p" "k' \<le> p" using run_le [OF sa] run_le [OF sb] pp by simp_all
  have gap: "filter (digit U) (slice s x y) = []" if "k \<le> x \<or> k' \<le> x" "x \<le> y" "y \<le> p" for x y
  proof -
    have "run (is_space U) s x y"
    proof (cases "k \<le> x")
      case True
      with sa that show ?thesis unfolding run_iff by auto
    next
      case False
      with that have "k' \<le> x" by simp
      with sb pp that show ?thesis unfolding run_iff by auto
    qed
    then have "list_all (is_space U) (slice s x y)" by (rule run_slice_all)
    with ds show ?thesis by (auto simp: filter_empty_conv list_all_iff)
  qed
  show ?thesis
  proof (cases "k \<le> k'")
    case True
    have "slice s i k' = slice s i k @ slice s k k'" using ik(1) True by (rule slice_split)
    moreover have "filter (digit U) (slice s k k') = []" using gap [of k k'] True kp by simp
    ultimately show ?thesis by (simp only: filter_append append_Nil2)
  next
    case False
    then have le: "k' \<le> k" by simp
    have "slice s i k = slice s i k' @ slice s k' k" using ik(2) le by (rule slice_split)
    moreover have "filter (digit U) (slice s k' k) = []" using gap [of k' k] le kp by simp
    ultimately show ?thesis by (simp only: filter_append append_Nil2)
  qed
qed

text \<open>
  Claim C2, as the specification states it, fails: it names the patterns
  \<open>number sur 5\<close> and \<open>Hote depuis year\<close>, the latter with a circumflex on the
  \<open>o\<close>, and promises an empty field when its pattern is absent.  The patterns of the program accept more: the letter
  \<open>o\<close> may stand without circumflex, and the white space around \<open>sur\<close> is optional.
  The first text below has no o with circumflex (code point 244) and still yields a
  tenure; the second has no space at all and still yields a rating.
\<close>

theorem host_stats_found_where_named_pattern_absent:
  "244 \<notin> set (lit ''Hote depuis 2015'')
   \<and> parse_host_stats basic 2024 (lit ''Hote depuis 2015'')
       = Inr \<lparr> rating = [], reviews = [], years = lit ''9'' \<rparr>
   \<and> 32 \<notin> set (lit ''4,95sur5'')
   \<and> parse_host_stats basic 2024 (lit ''4,95sur5'')
       = Inr \<lparr> rating = lit ''4.95'', reviews = [], years = [] \<rparr>"
proof -
  have a: "244 \<notin> set (lit ''Hote depuis 2015'')" by simp
  have b: "parse_host_stats basic 2024 (lit ''Hote depuis 2015'')
       = Inr \<lparr> rating = [], reviews = [], years = lit ''9'' \<rparr>" by code_simp
  have c: "32 \<notin> set (lit ''4,95sur5'')" by simp
  have d: "parse_host_stats basic 2024 (lit ''4,95sur5'')
       = Inr \<lparr> rating = lit ''4.95'', reviews = [], years = [] \<rparr>" by code_simp
  from a b c d show ?thesis by blast
qed

text \<open>
  Claim C2, amended.  For every input text and every current UTC year \<open>Y\<close>,
  \<open>parse_host_stats\<close> never raises and yields three fields, each described by its own
  pattern alone.  The rating is the number of the first occurrence of a number followed by
  optional white space, \<open>sur\<close>, optional white space and \<open>5\<close>, with every comma
  replaced by a full stop.  The review count is the digits of the first occurrence of a
  digit followed by digits and white space, then white space and \<open>commentaire\<close> without
  regard to case.  The tenure is the decimal numeral of \<open>max(0, Y - year)\<close>, which is
  never negative, for the four digits of the first occurrence of \<open>Hote depuis\<close>, with
  or without circumflex and without regard to case, followed by white space and four
  digits.  A field is empty when its pattern does not occur.  "First" is the least start
  position; under the facts of Unicode the occurrence at that start has one reading.
\<close>

theorem parse_host_stats_fields:
  "\<exists>r v y. parse_host_stats U Y s = Inr \<lparr> rating = r, reviews = v, years = y \<rparr>
     \<and> (((\<forall>i k e. \<not> rating_at U s i k e) \<and> r = [])
        \<or> (\<exists>i k e. rating_at U s i k e \<and> (\<forall>j k' e'. rating_at U s j k' e' \<longrightarrow> i \<le> j)
             \<and> (unicode_facts U \<longrightarrow> (\<forall>k' e'. rating_at U s i k' e' \<longrightarrow> k' = k))
             \<and> r = map (\<lambda>c. if c = 44 then 46 else c) (slice s i k)))
     \<and> (((\<forall>i k e. \<not> reviews_at U s i k e) \<and> v = [])
        \<or> (\<exists>i k e. reviews_at U s i k e \<and> (\<forall>j k' e'. reviews_at U s j k' e' \<longrightarrow> i \<le> j)
             \<and> (unicode_facts U \<longrightarrow>
                   (\<forall>k' e'. reviews_at U s i k' e' \<longrightarrow> filter (digit U) (slice s i k') = v))
             \<and> v = filter (digit U) (slice s i k)))
     \<and> (((\<forall>i k. \<not> years_at U s i k) \<and> y = [])
        \<or> (\<exists>i k. years_at U s i k \<and> (\<forall>j k'. years_at U s j k' \<longrightarrow> i \<le> j)
             \<and> (unicode_facts U \<longrightarrow> (\<forall>k'. years_at U s i k' \<longrightarrow> k' = k))
             \<and> is_decimal_of (nat (max 0 (Y - int (year_value U s k)))) y))"
proof -
  have R: "\<exists>r. parse_rating U s = Inr r
     \<and> (((\<forall>i k e. \<not> rating_at U s i k e) \<and> r = [])
        \<or> (\<exists>i k e. rating_at U s i k e \<and> (\<forall>j k' e'. rating_at U s j k' e' \<longrightarrow> i \<le> j)
             \<and> (unicode_facts U \<longrightarrow> (\<forall>k' e'. rating_at U s i k' e' \<longrightarrow> k' = k))
             \<and> r = map (\<lambda>c. if c = 44 then 46 else c) (slice s i k)))"
    using parse_rating_result [of U s] rating_number_unique [of U s] by blast
  have V: "\<exists>v. parse_reviews U s = Inr v
     \<and> (((\<forall>i k e. \<not> reviews_at U s i k e) \<and> v = [])
        \<or> (\<exists>i k e. reviews_at U s i k e \<and> (\<forall>j k' e'. reviews_at U s j k' e' \<longrightarrow> i \<le> j)
             \<and> (unicode_facts U \<longrightarrow>
                   (\<forall>k' e'. reviews_at U s i k' e' \<longrightarrow> filter (digit U) (slice s i k') = v))
             \<and> v = filter (digit U) (slice s i k)))"
    using parse_reviews_result [of U s] reviews_digits_unique [of U s] by blast
  have Ys: "((\<forall>i k. \<not> years_at U s i k) \<and> parse_years U Y s = [])
        \<or> (\<exists>i k. years_at U s i k \<and> (\<forall>j k'. years_at U s j k' \<longrightarrow> i \<le> j)
             \<and> (unicode_facts U \<longrightarrow> (\<forall>k'. years_at U s i k' \<longrightarrow> k' = k))
             \<and> is_decimal_of (nat (max 0 (Y - int (year_value U s k)))) (parse_years U Y s))"
  proof -
    have m: "nat (max 0 (Y - int n)) = nat (Y - int n)" for n by simp
    show ?thesis
      unfolding m using parse_years_result [of U s Y] years_digits_unique [of U s] by blast
  qed
  from R obtain r where r: "parse_rating U s = Inr r" and rp:
    "((\<forall>i k e. \<not> rating_at U s i k e) \<and> r = [])
        \<or> (\<exists>i k e. rating_at U s i k e \<and> (\<forall>j k' e'. rating_at U s j k' e' \<longrightarrow> i \<le> j)
             \<and> (unicode_facts U \<longrightarrow> (\<forall>k' e'. rating_at U s i k' e' \<longrightarrow> k' = k))
             \<and> r = map (\<lambda>c. if c = 44 then 46 else c) (slice s i k))" by blast
  from V obtain v where v: "parse_reviews U s = Inr v" and vp:
    "((\<forall>i k e. \<not> reviews_at U s i k e) \<and> v = [])
        \<or> (\<exists>i k e. reviews_at U s i k e \<and> (\<forall>j k' e'. reviews_at U s j k' e' \<longrightarrow> i \<le> j)
             \<and> (unicode_facts U \<longrightarrow>
                   (\<forall>k' e'. reviews_at U s i k' e' \<longrightarrow> filter (digit U) (slice s i k') = v))
             \<and> v = filter (digit U) (slice s i k))" by blast
  have "parse_host_stats U Y s = Inr \<lparr> rating = r, reviews = v, years = parse_years U Y s \<rparr>"
    by (simp add: parse_host_stats_def r v)
  with rp vp Ys show ?thesis by blast
qed

theorem parse_host_stats_fields_witness:
  "unicode_facts basic
   \<and> years_at basic (lit ''4,95 sur 5, 1 378 commentaires, Hote depuis 2015'') 32 44
   \<and> parse_host_stats basic 2024 (lit ''4,95 sur 5, 1 378 commentaires, Hote depuis 2015'')
       = Inr \<lparr> rating = lit ''4.95'', reviews = lit ''1378'', years = lit ''9'' \<rparr>
   \<and> (\<exists>i k. years_at basic (lit ''4,95 sur 5, 1 378 commentaires, Hote depuis 2015'') i k
          \<and> i \<le> 32
          \<and> is_decimal_of (nat (max 0 (2024 - int (year_value basic
                (lit ''4,95 sur 5, 1 378 commentaires, Hote depuis 2015'') k)))) (lit ''9''))
   \<and> parse_host_stats basic 2024 (lit ''rien ici'') = Inr \<lparr> rating = [], reviews = [], years = [] \<rparr>"
proof -
  let ?S = "lit ''4,95 sur 5, 1 378 commentaires, Hote depuis 2015''"
  have u: "unicode_facts basic"
    by (auto simp: unicode_facts_def basic_def digit_def ascii_lower_def)
  have ya: "years_at basic ?S 32 44" by code_simp
  have ev: "parse_host_stats basic 2024 ?S
       = Inr \<lparr> rating = lit ''4.95'', reviews = lit ''1378'', years = lit ''9'' \<rparr>" by code_simp
  have no: "parse_host_stats basic 2024 (lit ''rien ici'')
       = Inr \<lparr> rating = [], reviews = [], years = [] \<rparr>" by code_simp
  from parse_host_stats_fields [of basic 2024 ?S]
  obtain r v y where p: "parse_host_stats basic 2024 ?S = Inr \<lparr> rating = r, reviews = v, years = y \<rparr>"
    and yd: "((\<forall>i k. \<not> years_at basic ?S i k) \<and> y = [])
        \<or> (\<exists>i k. years_at basic ?S i k \<and> (\<forall>j k'. years_at basic ?S j k' \<longrightarrow> i \<le> j)
             \<and> (unicode_facts basic \<longrightarrow> (\<forall>k'. years_at basic ?S i k' \<longrightarrow> k' = k))
             \<and> is_decimal_of (nat (max 0 (2024 - int (year_value basic ?S k)))) y)"
    by blast
  from p ev have y: "y = lit ''9''" by simp
  from yd ya obtain i k where ik: "years_at basic ?S i k"
    and least: "\<forall>j k'. years_at basic ?S j k' \<longrightarrow> i \<le> j"
    and dec: "is_decimal_of (nat (max 0 (2024 - int (year_value basic ?S k)))) y"
    by blast
  from least ya have "i \<le> 32" by blast
  with ik dec y
  have "\<exists>i k. years_at basic ?S i k \<and> i \<le> 32
          \<and> is_decimal_of (nat (max 0 (2024 - int (year_value basic ?S k)))) (lit ''9'')"
    by blast
  with u ya ev no show ?thesis by blast
qed

section \<open>Normalisation and de-duplication\<close>

lemma strip_query_no_mark: "(63::nat) \<notin> set b \<Longrightarrow> strip_query b = b"
  by (auto simp: strip_query_def)

lemma strip_query_cut: "(63::nat) \<notin> set b \<Longrightarrow> strip_query (b @ 63 # q) = b"
  by (auto simp: strip_query_def takeWhile_tail)

lemma strip_query_shape: "h = strip_query h \<or> (\<exists>q. h = strip_query h @ 63 # q)"
  unfolding strip_query_def by (induction h) auto

lemma strip_query_clean: "63 \<notin> set (strip_query h)"
  unfolding strip_query_def by (induction h) auto

lemma drop_query_no_fragment: "(35::nat) \<notin> set h \<Longrightarrow> drop_query h = strip_query h"
proof -
  assume "(35::nat) \<notin> set h"
  then have tw: "takeWhile (\<lambda>c. c \<noteq> 35) h = h" and dw: "dropWhile (\<lambda>c. c \<noteq> 35) h = []"
    by auto
  show ?thesis unfolding drop_query_def strip_query_def tw dw by simp
qed

lemma harvest_set:
  "harvest hs seen = seen \<union> strip_query ` {h \<in> set hs. contains (lit ''/rooms/'') h}"
  unfolding harvest_def by (induction hs arbitrary: seen) auto

lemma dict_fromkeys_snoc:
  "dict_fromkeys (xs @ [x]) = dict_add_key x (dict_fromkeys xs)"
  by (simp add: dict_fromkeys_def)

lemma set_dict_fromkeys: "set (dict_fromkeys xs) = set xs"
  by (induction xs rule: rev_induct)
     (auto simp: dict_fromkeys_snoc dict_add_key_def dict_fromkeys_def)

lemma distinct_dict_fromkeys: "distinct (dict_fromkeys xs)"
  by (induction xs rule: rev_induct)
     (auto simp: dict_fromkeys_snoc dict_add_key_def dict_fromkeys_def)

lemma dict_fromkeys_before:
  "takeWhile (\<lambda>y. y \<noteq> x) (dict_fromkeys xs) = dict_fromkeys (takeWhile (\<lambda>y. y \<noteq> x) xs)"
proof (induction xs rule: rev_induct)
  case Nil
  then show ?case by (simp add: dict_fromkeys_def)
next
  case (snoc a xs)
  show ?case
  proof (cases "x \<in> set xs")
    case True
    then have "x \<in> set (dict_fromkeys xs)" by (simp add: set_dict_fromkeys)
    then have "takeWhile (\<lambda>y. y \<noteq> x) (dict_fromkeys (xs @ [a]))
               = takeWhile (\<lambda>y. y \<noteq> x) (dict_fromkeys xs)"
      by (auto simp: dict_fromkeys_snoc dict_add_key_def takeWhile_append1)
    moreover from True have "takeWhile (\<lambda>y. y \<noteq> x) (xs @ [a]) = takeWhile (\<lambda>y. y \<noteq> x) xs"
      by (auto simp: takeWhile_append1)
    ultimately show ?thesis using snoc by simp
  next
    case False
    then have nx: "x \<notin> set (dict_fromkeys xs)" by (simp add: set_dict_fromkeys)
    then have all: "takeWhile (\<lambda>y. y \<noteq> x) (dict_fromkeys xs) = dict_fromkeys xs"
      by (auto simp: takeWhile_eq_all_conv)
    from False have allx: "takeWhile (\<lambda>y. y \<noteq> x) xs = xs"
      by (auto simp: takeWhile_eq_all_conv)
    show ?thesis
    proof (cases "a = x")
      case True
      with False nx all allx show ?thesis
        by (simp add: dict_fromkeys_snoc dict_add_key_def takeWhile_append2)
    next
      case False
      with \<open>x \<notin> set xs\<close> have "takeWhile (\<lambda>y. y \<noteq> x) (xs @ [a]) = xs @ [a]"
        by (auto simp: takeWhile_eq_all_conv)
      moreover from False nx have "takeWhile (\<lambda>y. y \<noteq> x) (dict_fromkeys (xs @ [a]))
            = dict_fromkeys (xs @ [a])"
        by (auto simp: takeWhile_eq_all_conv set_dict_fromkeys)
      ultimately show ?thesis by simp
    qed
  qed
qed

text \<open>
  Claim C9, as the specification states it, fails: it promises that any two listing hrefs
  that differ only in their query parameters get the same ListingURL.  The program cuts
  an href at its first question mark, so a fragment that follows the query is cut with
  it, while the fragment of an href without query is kept.  The two hrefs below differ
  only in their query, get two different normalised URLs, and harvesting them leaves two
  elements in the discovery set.
\<close>

theorem query_variants_with_fragment_not_collapsed:
  "differ_only_in_query (lit ''https://a.b/rooms/123#r'') (lit ''https://a.b/rooms/123?x=1#r'')
   \<and> contains (lit ''/rooms/'') (lit ''https://a.b/rooms/123#r'')
   \<and> contains (lit ''/rooms/'') (lit ''https://a.b/rooms/123?x=1#r'')
   \<and> strip_query (lit ''https://a.b/rooms/123#r'') = lit ''https://a.b/rooms/123#r''
   \<and> strip_query (lit ''https://a.b/rooms/123?x=1#r'') = lit ''https://a.b/rooms/123''
   \<and> strip_query (lit ''https://a.b/rooms/123#r'') \<noteq> strip_query (lit ''https://a.b/rooms/123?x=1#r'')
   \<and> harvest [lit ''https://a.b/rooms/123#r'', lit ''https://a.b/rooms/123?x=1#r''] {}
       = {lit ''https://a.b/rooms/123'', lit ''https://a.b/rooms/123#r''}
   \<and> card (harvest [lit ''https://a.b/rooms/123#r'', lit ''https://a.b/rooms/123?x=1#r''] {}) = 2"
  by (simp add: differ_only_in_query_def drop_query_def strip_query_def harvest_def)

text \<open>
  Claim C9, amended.  Normalisation keeps exactly the part of an href before its first
  question mark: the result has no question mark, and the href is the result, possibly
  followed by a question mark and a rest.  Hence two hrefs with the same part before the
  first question mark get the same ListingURL; these are in particular two hrefs without
  fragment that differ only in their query parameters, and an href with a query and the
  same href without it.  A harvest pass over any hrefs, from any discovery set, adds
  exactly the normalised forms of the hrefs that contain \<open>/rooms/\<close>, so listing hrefs
  with the same normalised form collapse to one element.  The orchestrator's
  de-duplication keeps exactly the members of its input, each once, and in first-seen
  order: what stands before an element \<open>x\<close> in the output is the de-duplication of what
  stands before the first \<open>x\<close> in the input.
\<close>

theorem normalisation_and_first_seen_dedup:
  "63 \<notin> set (strip_query h)
   \<and> (h = strip_query h \<or> (\<exists>q. h = strip_query h @ 63 # q))
   \<and> (63 \<notin> set base \<longrightarrow> strip_query base = base \<and> strip_query (base @ 63 # q1) = base
         \<and> strip_query (base @ 63 # q1) = strip_query (base @ 63 # q2))
   \<and> (35 \<notin> set h1 \<and> 35 \<notin> set h2 \<and> differ_only_in_query h1 h2
         \<longrightarrow> strip_query h1 = strip_query h2)
   \<and> harvest hs seen = seen \<union> strip_query ` {h \<in> set hs. contains (lit ''/rooms/'') h}
   \<and> (contains (lit ''/rooms/'') h1 \<and> contains (lit ''/rooms/'') h2
         \<and> strip_query h1 = strip_query h2
         \<longrightarrow> harvest [h1, h2] seen = insert (strip_query h1) seen
           \<and> harvest (hs @ [h1] @ hs' @ [h2] @ hs'') seen
               = insert (strip_query h1) (harvest (hs @ hs' @ hs'') seen))
   \<and> set (dict_fromkeys xs) = set xs \<and> distinct (dict_fromkeys xs)
   \<and> takeWhile (\<lambda>y. y \<noteq> x) (dict_fromkeys xs)
       = dict_fromkeys (takeWhile (\<lambda>y. y \<noteq> x) xs)"
proof -
  have cut: "63 \<notin> set base \<longrightarrow> strip_query base = base \<and> strip_query (base @ 63 # q1) = base
         \<and> strip_query (base @ 63 # q1) = strip_query (base @ 63 # q2)"
    by (simp add: strip_query_cut strip_query_no_mark)
  have frag: "35 \<notin> set h1 \<and> 35 \<notin> set h2 \<and> differ_only_in_query h1 h2
         \<longrightarrow> strip_query h1 = strip_query h2"
    by (auto simp: differ_only_in_query_def drop_query_no_fragment)
  have coll: "contains (lit ''/rooms/'') h1 \<and> contains (lit ''/rooms/'') h2
         \<and> strip_query h1 = strip_query h2
         \<longrightarrow> harvest [h1, h2] seen = insert (strip_query h1) seen
           \<and> harvest (hs @ [h1] @ hs' @ [h2] @ hs'') seen
               = insert (strip_query h1) (harvest (hs @ hs' @ hs'') seen)"
    unfolding harvest_set by auto
  show ?thesis
    using cut frag coll strip_query_clean [of h] strip_query_shape [of h] harvest_set [of hs seen]
      set_dict_fromkeys [of xs] distinct_dict_fromkeys [of xs] dict_fromkeys_before [of x xs]
    by blast
qed

theorem normalisation_and_first_seen_dedup_witness:
  "(63::nat) \<notin> set (lit ''/rooms/123'')
   \<and> strip_query (lit ''/rooms/123'' @ 63 # lit ''foo=bar'') = lit ''/rooms/123''
   \<and> strip_query (lit ''/rooms/123'') = lit ''/rooms/123''
   \<and> (35::nat) \<notin> set (lit ''/rooms/123?foo=bar'') \<and> (35::nat) \<notin> set (lit ''/rooms/123'')
   \<and> differ_only_in_query (lit ''/rooms/123?foo=bar'') (lit ''/rooms/123'')
   \<and> contains (lit ''/rooms/'') (lit ''/rooms/123?foo=bar'')
   \<and> contains (lit ''/rooms/'') (lit ''/rooms/123'')
   \<and> strip_query (lit ''/rooms/123?foo=bar'') = strip_query (lit ''/rooms/123'')
   \<and> harvest [lit ''/rooms/123?foo=bar'', lit ''/rooms/123''] {lit ''/rooms/7''}
       = {lit ''/rooms/123'', lit ''/rooms/7''}
   \<and> dict_fromkeys [lit ''b'', lit ''a'', lit ''b'', lit ''c'', lit ''a'']
       = [lit ''b'', lit ''a'', lit ''c'']
   \<and> dict_fromkeys (takeWhile (\<lambda>y. y \<noteq> lit ''c'') [lit ''b'', lit ''a'', lit ''b'', lit ''c'', lit ''a''])
       = [lit ''b'', lit ''a'']"
proof -
  have h1: "(63::nat) \<notin> set (lit ''/rooms/123'')" by simp
  have f1: "(35::nat) \<notin> set (lit ''/rooms/123?foo=bar'')" by simp
  have f2: "(35::nat) \<notin> set (lit ''/rooms/123'')" by simp
  have dq: "differ_only_in_query (lit ''/rooms/123?foo=bar'') (lit ''/rooms/123'')"
    by (simp add: differ_only_in_query_def drop_query_def)
  have c1: "contains (lit ''/rooms/'') (lit ''/rooms/123?foo=bar'')" by simp
  have c2: "contains (lit ''/rooms/'') (lit ''/rooms/123'')" by simp
  have d: "dict_fromkeys [lit ''b'', lit ''a'', lit ''b'', lit ''c'', lit ''a'']
       = [lit ''b'', lit ''a'', lit ''c'']"
    by (simp add: dict_fromkeys_def dict_add_key_def)
  note t = normalisation_and_first_seen_dedup [of "[]" "lit ''/rooms/123''" "lit ''foo=bar''"
      "lit ''x''" "lit ''/rooms/123?foo=bar''" "lit ''/rooms/123''" "[]" "{lit ''/rooms/7''}"
      "[]" "[]" "[lit ''b'', lit ''a'', lit ''b'', lit ''c'', lit ''a'']" "lit ''c''"]
  from t h1 have s1: "strip_query (lit ''/rooms/123'' @ 63 # lit ''foo=bar'') = lit ''/rooms/123''"
    and s1': "strip_query (lit ''/rooms/123'') = lit ''/rooms/123''" by blast+
  from t f1 f2 dq have s2: "strip_query (lit ''/rooms/123?foo=bar'') = strip_query (lit ''/rooms/123'')"
    by blast
  from t c1 c2 s2 have hv: "harvest [lit ''/rooms/123?foo=bar'', lit ''/rooms/123''] {lit ''/rooms/7''}
       = insert (strip_query (lit ''/rooms/123?foo=bar'')) {lit ''/rooms/7''}"
    by blast
  have hv': "harvest [lit ''/rooms/123?foo=bar'', lit ''/rooms/123''] {lit ''/rooms/7''}
       = {lit ''/rooms/123'', lit ''/rooms/7''}"
    unfolding hv s2 s1' ..
  from t have "takeWhile (\<lambda>y. y \<noteq> lit ''c'') (dict_fromkeys [lit ''b'', lit ''a'', lit ''b'', lit ''c'', lit ''a''])
       = dict_fromkeys (takeWhile (\<lambda>y. y \<noteq> lit ''c'') [lit ''b'', lit ''a'', lit ''b'', lit ''c'', lit ''a''])"
    by blast
  then have tw: "dict_fromkeys (takeWhile (\<lambda>y. y \<noteq> lit ''c'') [lit ''b'', lit ''a'', lit ''b'', lit ''c'', lit ''a''])
       = [lit ''b'', lit ''a'']"
    unfolding d by simp
  show ?thesis
    by (intro conjI) (fact h1 s1 s1' f1 f2 dq c1 c2 s2 hv' d tw)+
qed

section \<open>The discovery loop\<close>

lemma set_js_array_from_set: "set (js_array_from_set xs) = set xs"
proof -
  have "set (fold (\<lambda>x ys. if x \<in> set ys then ys else ys @ [x]) xs acc) = set acc \<union> set xs" for acc
    by (induction xs arbitrary: acc) auto
  then show ?thesis by (simp add: js_array_from_set_def)
qed

lemma finite_found: "finite (found p k)"
  unfolding found_def by (rule finite_UN_I) (auto split: sum.splits)

lemma found_0: "found p 0 = {}"
  by (simp add: found_def)

lemma found_Suc:
  "anchors p k = Inr els \<Longrightarrow> found p (Suc k) = harvest (js_array_from_set els) (found p k)"
  by (auto simp: found_def harvest_set set_js_array_from_set lessThan_Suc)

lemma found_clean: "u \<in> found p k \<Longrightarrow> 63 \<notin> set u"
proof -
  assume "u \<in> found p k"
  then obtain j where "u \<in> (case anchors p j of Inl e \<Rightarrow> {}
      | Inr els \<Rightarrow> strip_query ` {h \<in> set els. contains (lit ''/rooms/'') h})"
    unfolding found_def by blast
  then obtain h where "u = strip_query h" by (cases "anchors p j") auto
  then show ?thesis by (simp add: strip_query_clean)
qed

text \<open>
  What the loop returns when it returns a set: either the cap was reached in the last
  pass, or the last height check found the height unchanged.
\<close>

lemma scroll_loop_result_aux:
  assumes "scroll_loop cap p k seen lh = Some y"
  shows "\<forall>S n. seen = found p k \<longrightarrow> y = Inr (S, n) \<longrightarrow>
     k \<le> n \<and> ((S = found p (Suc n) \<and> cap \<le> int (card S))
               \<or> (1 \<le> n \<and> S = found p n \<and> int (card S) < cap))"
proof (rule scroll_loop.raw_induct [where P = "\<lambda>cap p k seen lh y.
     \<forall>S n. seen = found p k \<longrightarrow> y = Inr (S, n) \<longrightarrow>
     k \<le> n \<and> ((S = found p (Suc n) \<and> cap \<le> int (card S))
               \<or> (1 \<le> n \<and> S = found p n \<and> int (card S) < cap))", OF _ assms], goal_cases)
  case (1 loop cap p k seen lh y)
  note IH = "1"(1) and body = "1"(2)
  show ?case
  proof (intro allI impI)
    fix S n
    assume seen: "seen = found p k" and y: "y = Inr (S, n)"
    show "k \<le> n \<and> ((S = found p (Suc n) \<and> cap \<le> int (card S))
               \<or> (1 \<le> n \<and> S = found p n \<and> int (card S) < cap))"
    proof (cases "anchors p k")
      case (Inl e)
      with body have "y = Inl e" by (simp only: sum.case option.inject)
      with y show ?thesis by simp
    next
      case (Inr els)
      define seen' where "seen' = harvest (js_array_from_set els) seen"
      have fs: "seen' = found p (Suc k)"
        unfolding seen'_def seen using Inr by (simp only: found_Suc)
      from body Inr have body1:
        "(if cap \<le> int (card seen') then Some (Inr (seen', k))
          else (case scrolled p (Suc k) of
                  Inl e \<Rightarrow> Some (Inl e)
                | Inr new_height \<Rightarrow>
                   if int new_height = lh then Some (Inr (seen', Suc k))
                   else loop cap p (Suc k) seen' (int new_height))) = Some y"
        unfolding seen'_def by (simp only: sum.case Let_def)
      show ?thesis
      proof (cases "cap \<le> int (card seen')")
        case True
        with body1 have "y = Inr (seen', k)" by (simp only: if_True option.inject)
        with y have "S = seen'" "n = k" by simp_all
        with True fs show ?thesis by simp
      next
        case False
        with body1 have body2:
          "(case scrolled p (Suc k) of
                  Inl e \<Rightarrow> Some (Inl e)
                | Inr new_height \<Rightarrow>
                   if int new_height = lh then Some (Inr (seen', Suc k))
                   else loop cap p (Suc k) seen' (int new_height)) = Some y"
          by (simp only: if_False)
        show ?thesis
        proof (cases "scrolled p (Suc k)")
          case (Inl e)
          with body2 have "y = Inl e" by (simp only: sum.case option.inject)
          with y show ?thesis by simp
        next
          case (Inr h)
          with body2 have body3:
            "(if int h = lh then Some (Inr (seen', Suc k))
              else loop cap p (Suc k) seen' (int h)) = Some y"
            by (simp only: sum.case)
          show ?thesis
          proof (cases "int h = lh")
            case True
            with body3 have "y = Inr (seen', Suc k)" by simp
            with y have "S = seen'" "n = Suc k" by simp_all
            with False fs show ?thesis by simp
          next
            case ne: False
            with body3 have "loop cap p (Suc k) seen' (int h) = Some y" by simp
            from IH [OF this] fs y
            have "Suc k \<le> n" and "(S = found p (Suc n) \<and> cap \<le> int (card S))
                 \<or> (1 \<le> n \<and> S = found p n \<and> int (card S) < cap)"
              by blast+
            then show ?thesis by simp
          qed
        qed
      qed
    qed
  qed
qed

lemma scroll_loop_result:
  "scroll_loop cap p k seen lh = Some y \<Longrightarrow> seen = found p k \<Longrightarrow> y = Inr (S, n) \<Longrightarrow>
     k \<le> n \<and> ((S = found p (Suc n) \<and> cap \<le> int (card S))
               \<or> (1 \<le> n \<and> S = found p n \<and> int (card S) < cap))"
  using scroll_loop_result_aux by blast

lemma py_prefix_nonneg: "0 \<le> n \<Longrightarrow> py_prefix n xs = take (nat n) xs"
  by (simp add: py_prefix_def)

text \<open>
  Claim C4, as the specification states it, fails: the cap is compared with the number of
  normalised URLs, not with the number of listing anchors.  On the page below the first
  pass yields two distinct listing anchors, which is the cap, but they differ only in
  their query; the crawler scrolls twice and returns one URL.
\<close>

theorem two_anchors_one_url_and_scrolling:
  "anchors query_variants_page 0
     = Inr [lit ''https://a.b/rooms/1?adults=1'', lit ''https://a.b/rooms/1?adults=2'']
   \<and> distinct [lit ''https://a.b/rooms/1?adults=1'', lit ''https://a.b/rooms/1?adults=2'']
   \<and> contains (lit ''/rooms/'') (lit ''https://a.b/rooms/1?adults=1'')
   \<and> contains (lit ''/rooms/'') (lit ''https://a.b/rooms/1?adults=2'')
   \<and> collect_listing_urls 2 sorted_list_of_set query_variants_page
       = Some (Inr ([lit ''https://a.b/rooms/1''], 2))"
  by (simp add: collect_listing_urls_def scroll_loop.simps query_variants_page_def harvest_def
      js_array_from_set_def strip_query_def py_prefix_def)

text \<open>
  Claim C4, amended.  For every search page and every cap that is not negative, whatever
  the order in which the set is enumerated: when the crawler returns, it returns at most
  the cap of distinct normalised ListingURLs, namely the first cap members of the
  discovery set, and that set is the one found by the passes up to the last one; and if
  the first harvest pass alone yields at least the cap of distinct normalised URLs, the
  crawler returns exactly the cap of distinct URLs and performs no scroll.
\<close>

theorem discovery_returns_at_most_cap:
  assumes cap: "0 \<le> cap" and enum: "enumerates set_order"
  shows "(collect_listing_urls cap set_order p = Some (Inr (urls, n)) \<longrightarrow>
            int (length urls) \<le> cap \<and> distinct urls \<and> (\<forall>u \<in> set urls. 63 \<notin> set u)
            \<and> (\<exists>S. urls = take (nat cap) (set_order S) \<and> set urls \<subseteq> S
                  \<and> ((S = found p (Suc n) \<and> cap \<le> int (card S))
                      \<or> (1 \<le> n \<and> S = found p n \<and> int (card S) < cap))))
       \<and> (sp_goto p = None \<and> anchors p 0 = Inr els
            \<and> cap \<le> int (card (strip_query ` {h \<in> set els. contains (lit ''/rooms/'') h})) \<longrightarrow>
            collect_listing_urls cap set_order p
              = Some (Inr (take (nat cap)
                   (set_order (strip_query ` {h \<in> set els. contains (lit ''/rooms/'') h})), 0))
            \<and> int (length (take (nat cap)
                   (set_order (strip_query ` {h \<in> set els. contains (lit ''/rooms/'') h})))) = cap
            \<and> distinct (take (nat cap)
                   (set_order (strip_query ` {h \<in> set els. contains (lit ''/rooms/'') h}))))"
proof (intro conjI impI)
  assume r: "collect_listing_urls cap set_order p = Some (Inr (urls, n))"
  then have g: "sp_goto p = None"
    by (cases "sp_goto p") (simp_all add: collect_listing_urls_def)
  from r g obtain S where l: "scroll_loop cap p 0 {} (- 1) = Some (Inr (S, n))"
    and u: "urls = py_prefix cap (set_order S)"
    by (auto simp: collect_listing_urls_def split: option.splits sum.splits)
  from scroll_loop_result [OF l _ refl] have S: "(S = found p (Suc n) \<and> cap \<le> int (card S))
               \<or> (1 \<le> n \<and> S = found p n \<and> int (card S) < cap)"
    by (simp add: found_0)
  then have fin: "finite S" and clean: "\<forall>u \<in> S. 63 \<notin> set u"
    using finite_found found_clean by auto
  from enum fin have e: "set (set_order S) = S" "distinct (set_order S)"
    by (simp_all add: enumerates_def)
  from u cap have u': "urls = take (nat cap) (set_order S)" by (simp add: py_prefix_nonneg)
  have sub: "set urls \<subseteq> S" unfolding u' using e(1) set_take_subset by fastforce
  show "int (length urls) \<le> cap" unfolding u' using cap by simp
  show "distinct urls" unfolding u' using e(2) by simp
  show "\<forall>u \<in> set urls. 63 \<notin> set u" using sub clean by blast
  show "\<exists>S. urls = take (nat cap) (set_order S) \<and> set urls \<subseteq> S
                  \<and> ((S = found p (Suc n) \<and> cap \<le> int (card S))
                      \<or> (1 \<le> n \<and> S = found p n \<and> int (card S) < cap))"
    using u' sub S by blast
next
  let ?S = "strip_query ` {h \<in> set els. contains (lit ''/rooms/'') h}"
  assume a: "sp_goto p = None \<and> anchors p 0 = Inr els \<and> cap \<le> int (card ?S)"
  have hv: "harvest (js_array_from_set els) {} = ?S"
    by (simp add: harvest_set set_js_array_from_set)
  from a have l: "scroll_loop cap p 0 {} (- 1) = Some (Inr (?S, 0))"
    by (subst scroll_loop.simps) (simp add: hv)
  with a cap show "collect_listing_urls cap set_order p = Some (Inr (take (nat cap) (set_order ?S), 0))"
    by (simp add: collect_listing_urls_def py_prefix_nonneg)
  have fin: "finite ?S" by simp
  with enum have e: "set (set_order ?S) = ?S" "distinct (set_order ?S)"
    by (simp_all add: enumerates_def)
  then have len: "length (set_order ?S) = card ?S" using distinct_card by fastforce
  from a cap have "nat cap \<le> card ?S" by linarith
  then have "min (length (set_order ?S)) (nat cap) = nat cap" unfolding len by simp
  then have "length (take (nat cap) (set_order ?S)) = nat cap" by (simp only: length_take)
  then show "int (length (take (nat cap) (set_order ?S))) = cap" using cap by (simp only: int_nat_eq if_True)
  from e(2) show "distinct (take (nat cap) (set_order ?S))" by simp
qed

text \<open>
  Termination.  If some height check from the second on finds the height of the check
  before it, the loop returns, after at most that many checks.
\<close>

lemma scroll_loop_terminates_aux:
  assumes m: "2 \<le> m" and stop: "scrolled p m = scrolled p (m - 1)"
  shows "m = k + Suc d \<Longrightarrow>
         (k = 0 \<and> lh = - 1) \<or> (0 < k \<and> (\<exists>h. scrolled p k = Inr h \<and> lh = int h)) \<Longrightarrow>
         \<exists>y. scroll_loop cap p k seen lh = Some y \<and> (\<forall>S n. y = Inr (S, n) \<longrightarrow> n \<le> m)"
proof (induction d arbitrary: k seen lh)
  case 0
  then have km: "Suc k = m" by simp
  with m have kpos: "0 < k" by simp
  with 0 obtain hk where hk: "scrolled p k = Inr hk" "lh = int hk" by auto
  from km have "m - 1 = k" by simp
  with km stop hk have nxt: "scrolled p (Suc k) = Inr hk" by simp
  show ?case
  proof (cases "anchors p k")
    case (Inl e)
    then show ?thesis by (subst scroll_loop.simps) simp
  next
    case (Inr els)
    show ?thesis
      by (subst scroll_loop.simps) (use Inr nxt hk km in \<open>simp add: Let_def\<close>)
  qed
next
  case (Suc d)
  then have km: "m = Suc k + Suc d" by simp
  show ?case
  proof (cases "anchors p k")
    case (Inl e)
    then show ?thesis by (subst scroll_loop.simps) simp
  next
    case (Inr els)
    let ?seen = "harvest (js_array_from_set els) seen"
    show ?thesis
    proof (cases "cap \<le> int (card ?seen)")
      case True
      with Inr km show ?thesis by (subst scroll_loop.simps) (simp add: Let_def)
    next
      case nocap: False
      show ?thesis
      proof (cases "scrolled p (Suc k)")
        case (Inl e)
        with Inr nocap show ?thesis by (subst scroll_loop.simps) (simp add: Let_def)
      next
        case h: (Inr h)
        show ?thesis
        proof (cases "int h = lh")
          case True
          with Inr nocap h km show ?thesis by (subst scroll_loop.simps) (simp add: Let_def)
        next
          case False
          have "(Suc k = 0 \<and> int h = - 1) \<or> (0 < Suc k \<and> (\<exists>h'. scrolled p (Suc k) = Inr h' \<and> int h = int h'))"
            using h by simp
          from Suc.IH [OF km this]
          obtain y where "scroll_loop cap p (Suc k) ?seen (int h) = Some y"
            and "\<forall>S n. y = Inr (S, n) \<longrightarrow> n \<le> m" by blast
          with Inr nocap h False show ?thesis
            by (subst scroll_loop.simps) (simp add: Let_def)
        qed
      qed
    qed
  qed
qed

text \<open>
  The number of checks.  While every operation succeeds and the cap is not reached, the
  loop ends at the first check, from the second on, that finds the height of the check
  before it.
\<close>

lemma scroll_loop_exact_aux:
  assumes m: "2 \<le> m" and stop: "scrolled p m = scrolled p (m - 1)"
    and change: "\<forall>j. 2 \<le> j \<and> j < m \<longrightarrow> scrolled p j \<noteq> scrolled p (j - 1)"
    and ok: "\<forall>j. j < m \<longrightarrow> (\<exists>els. anchors p j = Inr els)"
    and hs: "\<forall>j. 1 \<le> j \<and> j \<le> m \<longrightarrow> (\<exists>h. scrolled p j = Inr h) \<and> int (card (found p j)) < cap"
  shows "m = k + Suc d \<Longrightarrow>
         (k = 0 \<and> lh = - 1) \<or> (0 < k \<and> (\<exists>h. scrolled p k = Inr h \<and> lh = int h)) \<Longrightarrow>
         scroll_loop cap p k (found p k) lh = Some (Inr (found p m, m))"
proof (induction d arbitrary: k lh)
  case 0
  then have km: "Suc k = m" by simp
  with m have kpos: "0 < k" by simp
  with 0 obtain hk where hk: "scrolled p k = Inr hk" "lh = int hk" by auto
  from km have "m - 1 = k" by simp
  with km stop hk have nxt: "scrolled p (Suc k) = Inr hk" by simp
  from km have "k < m" by simp
  with ok obtain els where els: "anchors p k = Inr els" by blast
  have fs: "harvest (js_array_from_set els) (found p k) = found p m"
    using found_Suc [OF els] km by simp
  from m have "1 \<le> m \<and> m \<le> m" by simp
  with hs have "int (card (found p m)) < cap" by blast
  then have nocap: "\<not> cap \<le> int (card (found p m))" by simp
  show ?case
    by (subst scroll_loop.simps) (use els fs nocap nxt hk km in \<open>simp add: Let_def\<close>)
next
  case (Suc d)
  then have km: "m = Suc k + Suc d" by simp
  from km have "k < m" by simp
  with ok obtain els where els: "anchors p k = Inr els" by blast
  have fs: "harvest (js_array_from_set els) (found p k) = found p (Suc k)"
    using found_Suc [OF els] by simp
  from km have "1 \<le> Suc k \<and> Suc k \<le> m" by simp
  with hs have hk1: "(\<exists>h. scrolled p (Suc k) = Inr h) \<and> int (card (found p (Suc k))) < cap" by blast
  then have nocap: "\<not> cap \<le> int (card (found p (Suc k)))" by simp
  from hk1 obtain h where h: "scrolled p (Suc k) = Inr h" by blast
  have ne: "int h \<noteq> lh"
  proof (cases "k = 0")
    case True
    with Suc.prems show ?thesis by auto
  next
    case False
    with Suc.prems obtain hk where hk: "scrolled p k = Inr hk" "lh = int hk" by auto
    from False km have "2 \<le> Suc k \<and> Suc k < m" by simp
    with change have "scrolled p (Suc k) \<noteq> scrolled p (Suc k - 1)" by blast
    with h hk show ?thesis by auto
  qed
  have "(Suc k = 0 \<and> int h = - 1) \<or> (0 < Suc k \<and> (\<exists>h'. scrolled p (Suc k) = Inr h' \<and> int h = int h'))"
    using h by simp
  from Suc.IH [OF km this]
  have "scroll_loop cap p (Suc k) (found p (Suc k)) (int h) = Some (Inr (found p m, m))" .
  with els fs nocap h ne show ?case
    by (subst scroll_loop.simps) (simp add: Let_def)
qed

lemma stops_changing_stop:
  assumes "stops_changing_after p N"
  shows "scrolled p (max (N + 1) 2) = scrolled p (max (N + 1) 2 - 1)"
    and "\<forall>j. 2 \<le> j \<and> j < max (N + 1) 2 \<longrightarrow> scrolled p j \<noteq> scrolled p (j - 1)"
proof -
  from assms have ch: "\<And>j. 1 \<le> j \<and> j \<le> N \<Longrightarrow> scrolled p j \<noteq> scrolled p (j - 1)"
    and st: "\<And>j. N < j \<Longrightarrow> scrolled p j = scrolled p N"
    unfolding stops_changing_after_def by blast+
  show "scrolled p (max (N + 1) 2) = scrolled p (max (N + 1) 2 - 1)"
  proof (cases "N = 0")
    case True
    with st [of 2] st [of 1] have "scrolled p 2 = scrolled p 1" by simp
    with True show ?thesis by (simp add: numeral_2_eq_2)
  next
    case False
    then have "max (N + 1) 2 = N + 1" by simp
    with st [of "N + 1"] show ?thesis by simp
  qed
  show "\<forall>j. 2 \<le> j \<and> j < max (N + 1) 2 \<longrightarrow> scrolled p j \<noteq> scrolled p (j - 1)"
    using ch by auto
qed

text \<open>
  Claim C5, as the specification states it, fails for \<open>N = 0\<close>: on a page whose height
  never changes the first check compares the height with the initial value \<open>-1\<close> of
  \<open>last_height\<close>, which no height equals, and the loop ends at the second check, not
  at the first.
\<close>

theorem static_page_needs_two_checks:
  "stops_changing_after static_empty_page 0
   \<and> int (card (found static_empty_page 2)) < 200
   \<and> scroll_loop 200 static_empty_page 0 {} (- 1) = Some (Inr ({}, 2))
   \<and> collect_listing_urls 200 sorted_list_of_set static_empty_page = Some (Inr ([], 2))"
  by (simp add: stops_changing_after_def static_empty_page_def found_def scroll_loop.simps
      harvest_def js_array_from_set_def collect_listing_urls_def py_prefix_def)

text \<open>
  Claim C5, amended.  The discovery scroll loop terminates for every page on which some
  height check from the second on finds the height unchanged, with at most that many
  checks: each iteration either fails, or reaches the cap and stops, or compares the
  height after the scroll with the height of the iteration before (with \<open>-1\<close> in the
  first iteration) and stops on equality.  For a page whose height stops changing after
  \<open>N\<close> scrolls, while every operation succeeds and fewer than the cap have been found,
  the loop ends at the \<open>(N+1)\<close>-th height check when \<open>N \<ge> 1\<close> and at the second
  when \<open>N = 0\<close>, and returns what the passes before that check have found.
\<close>

theorem scroll_loop_terminates:
  "(2 \<le> m \<and> scrolled p m = scrolled p (m - 1) \<longrightarrow>
      (\<exists>y. scroll_loop cap p 0 {} (- 1) = Some y \<and> (\<forall>S n. y = Inr (S, n) \<longrightarrow> n \<le> m))
      \<and> (\<exists>r. collect_listing_urls cap set_order p = Some r))
   \<and> (stops_changing_after p N
       \<and> (\<forall>j. j < max (N + 1) 2 \<longrightarrow> (\<exists>els. anchors p j = Inr els))
       \<and> (\<forall>j. 1 \<le> j \<and> j \<le> max (N + 1) 2 \<longrightarrow>
              (\<exists>h. scrolled p j = Inr h) \<and> int (card (found p j)) < cap) \<longrightarrow>
      scroll_loop cap p 0 {} (- 1) = Some (Inr (found p (max (N + 1) 2), max (N + 1) 2))
      \<and> (sp_goto p = None \<longrightarrow>
           collect_listing_urls cap set_order p
             = Some (Inr (py_prefix cap (set_order (found p (max (N + 1) 2))), max (N + 1) 2))))"
proof (intro conjI impI)
  assume a: "2 \<le> m \<and> scrolled p m = scrolled p (m - 1)"
  then obtain d where d: "m = 0 + Suc d" by (cases m) auto
  from scroll_loop_terminates_aux [of m p 0 d "- 1" cap "{}"] a d
  obtain y where y: "scroll_loop cap p 0 {} (- 1) = Some y"
    and bound: "\<forall>S n. y = Inr (S, n) \<longrightarrow> n \<le> m" by blast
  from y bound
  show "\<exists>y. scroll_loop cap p 0 {} (- 1) = Some y \<and> (\<forall>S n. y = Inr (S, n) \<longrightarrow> n \<le> m)"
    by blast
  from y show "\<exists>r. collect_listing_urls cap set_order p = Some r"
    by (cases "sp_goto p"; cases y) (auto simp: collect_listing_urls_def)
next
  let ?m = "max (N + 1) 2"
  assume a: "stops_changing_after p N
       \<and> (\<forall>j. j < ?m \<longrightarrow> (\<exists>els. anchors p j = Inr els))
       \<and> (\<forall>j. 1 \<le> j \<and> j \<le> ?m \<longrightarrow> (\<exists>h. scrolled p j = Inr h) \<and> int (card (found p j)) < cap)"
  obtain d where d: "?m = 0 + Suc d" by (cases ?m) auto
  have m2: "2 \<le> ?m" by simp
  from a have sc: "stops_changing_after p N" by simp
  from scroll_loop_exact_aux [OF m2 stops_changing_stop [OF sc], of cap 0 d "- 1"] a d
  have "scroll_loop cap p 0 (found p 0) (- 1) = Some (Inr (found p ?m, ?m))" by blast
  then show l: "scroll_loop cap p 0 {} (- 1) = Some (Inr (found p ?m, ?m))"
    by (simp only: found_0)
  assume "sp_goto p = None"
  with l show "collect_listing_urls cap set_order p
             = Some (Inr (py_prefix cap (set_order (found p ?m)), ?m))"
    by (simp add: collect_listing_urls_def)
qed

lemma enumerates_sorted: "enumerates (sorted_list_of_set :: ustr set \<Rightarrow> ustr list)"
  by (simp add: enumerates_def)

theorem discovery_returns_at_most_cap_witness:
  "(0::int) \<le> 2 \<and> enumerates (sorted_list_of_set :: ustr set \<Rightarrow> ustr list)
   \<and> sp_goto three_rooms_page = None
   \<and> (\<exists>urls. collect_listing_urls 2 sorted_list_of_set three_rooms_page = Some (Inr (urls, 0))
          \<and> int (length urls) = 2 \<and> distinct urls)
   \<and> collect_listing_urls 2 sorted_list_of_set query_variants_page
       = Some (Inr ([lit ''https://a.b/rooms/1''], 2))
   \<and> int (length [lit ''https://a.b/rooms/1'']) \<le> 2"
proof -
  let ?els = "[lit ''https://a.b/rooms/1?adults=1'', lit ''https://a.b/rooms/2'',
              lit ''https://a.b/rooms/3'', lit ''https://a.b/help'']"
  let ?S = "strip_query ` {h \<in> set ?els. contains (lit ''/rooms/'') h}"
  have g: "sp_goto three_rooms_page = None" by (simp add: three_rooms_page_def)
  have a: "anchors three_rooms_page 0 = Inr ?els" by (simp add: three_rooms_page_def)
  have "?S = set (map strip_query (filter (contains (lit ''/rooms/'')) ?els))" by auto
  also have "\<dots> = {lit ''https://a.b/rooms/1'', lit ''https://a.b/rooms/2'', lit ''https://a.b/rooms/3''}"
    by (simp add: strip_query_def)
  finally have S: "?S = {lit ''https://a.b/rooms/1'', lit ''https://a.b/rooms/2'', lit ''https://a.b/rooms/3''}" .
  have c: "(2::int) \<le> int (card ?S)" unfolding S by simp
  from discovery_returns_at_most_cap [of 2 sorted_list_of_set three_rooms_page _ _ ?els,
      OF _ enumerates_sorted] g a c
  have "collect_listing_urls 2 sorted_list_of_set three_rooms_page
              = Some (Inr (take (nat 2) (sorted_list_of_set ?S), 0))
            \<and> int (length (take (nat 2) (sorted_list_of_set ?S))) = 2
            \<and> distinct (take (nat 2) (sorted_list_of_set ?S))"
    by simp
  then have ex: "\<exists>urls. collect_listing_urls 2 sorted_list_of_set three_rooms_page = Some (Inr (urls, 0))
          \<and> int (length urls) = 2 \<and> distinct urls"
    by blast
  have q: "collect_listing_urls 2 sorted_list_of_set query_variants_page
       = Some (Inr ([lit ''https://a.b/rooms/1''], 2))"
    by (simp add: collect_listing_urls_def scroll_loop.simps query_variants_page_def harvest_def
      js_array_from_set_def strip_query_def py_prefix_def)
  from discovery_returns_at_most_cap [of 2 sorted_list_of_set query_variants_page
      "[lit ''https://a.b/rooms/1'']" 2, OF _ enumerates_sorted] q
  have l: "int (length [lit ''https://a.b/rooms/1'']) \<le> 2" by simp
  show ?thesis
    by (intro conjI) (simp, rule enumerates_sorted, rule g, rule ex, rule q, rule l)
qed

lemma found_growing: "1 \<le> j \<Longrightarrow> found growing_page j = {lit ''https://a.b/rooms/1''}"
proof -
  assume "1 \<le> j"
  then have "0 \<in> {..<j}" by simp
  then have ne: "{..<j} \<noteq> {}" by blast
  have c: "contains (lit ''/rooms/'') (lit ''https://a.b/rooms/1'')" by simp
  have "{h \<in> set [lit ''https://a.b/rooms/1'']. contains (lit ''/rooms/'') h}
        = {lit ''https://a.b/rooms/1''}"
    using c by auto
  moreover have "strip_query (lit ''https://a.b/rooms/1'') = lit ''https://a.b/rooms/1''"
    by (simp add: strip_query_def)
  ultimately have inner: "strip_query ` {h \<in> set [lit ''https://a.b/rooms/1'']. contains (lit ''/rooms/'') h}
        = {lit ''https://a.b/rooms/1''}"
    by (simp only: image_insert image_empty)
  have "found growing_page j = (\<Union>i \<in> {..<j}.
      strip_query ` {h \<in> set [lit ''https://a.b/rooms/1'']. contains (lit ''/rooms/'') h})"
    by (simp add: found_def growing_page_def)
  also have "\<dots> = {lit ''https://a.b/rooms/1''}"
    unfolding inner using ne by (simp only: UN_constant if_False)
  finally show ?thesis .
qed

theorem scroll_loop_terminates_witness:
  "stops_changing_after growing_page 2
   \<and> scroll_loop 200 growing_page 0 {} (- 1) = Some (Inr ({lit ''https://a.b/rooms/1''}, 3))
   \<and> (\<exists>r. collect_listing_urls 200 sorted_list_of_set growing_page = Some r)
   \<and> stops_changing_after static_empty_page 0
   \<and> scroll_loop 200 static_empty_page 0 {} (- 1) = Some (Inr ({}, 2))"
proof -
  have sc: "stops_changing_after growing_page 2"
    by (auto simp: stops_changing_after_def growing_page_def)
  have an: "\<forall>j. j < max (2 + 1) 2 \<longrightarrow> (\<exists>els. anchors growing_page j = Inr els)"
    by (simp add: growing_page_def)
  have hs: "\<forall>j. 1 \<le> j \<and> j \<le> max (2 + 1) 2 \<longrightarrow>
              (\<exists>h. scrolled growing_page j = Inr h) \<and> int (card (found growing_page j)) < 200"
    by (simp add: found_growing) (simp add: growing_page_def)
  note t = scroll_loop_terminates [of 3 growing_page 200 sorted_list_of_set 2]
  from t sc an hs
  have "scroll_loop 200 growing_page 0 {} (- 1)
          = Some (Inr (found growing_page (max (2 + 1) 2), max (2 + 1) 2))" by blast
  then have l: "scroll_loop 200 growing_page 0 {} (- 1) = Some (Inr ({lit ''https://a.b/rooms/1''}, 3))"
    by (simp add: found_growing)
  have "2 \<le> (3::nat) \<and> scrolled growing_page 3 = scrolled growing_page (3 - 1)"
    by (simp add: growing_page_def)
  with t have r: "\<exists>r. collect_listing_urls 200 sorted_list_of_set growing_page = Some r" by blast
  have s0: "stops_changing_after static_empty_page 0"
    by (simp add: stops_changing_after_def static_empty_page_def)
  have f0: "found static_empty_page j = {}" for j by (simp add: found_def static_empty_page_def)
  note t0 = scroll_loop_terminates [of 2 static_empty_page 200 sorted_list_of_set 0]
  have "(\<forall>j. j < max (0 + 1) 2 \<longrightarrow> (\<exists>els. anchors static_empty_page j = Inr els))
       \<and> (\<forall>j. 1 \<le> j \<and> j \<le> max (0 + 1) 2 \<longrightarrow>
              (\<exists>h. scrolled static_empty_page j = Inr h) \<and> int (card (found static_empty_page j)) < 200)"
    by (simp add: f0) (simp add: static_empty_page_def)
  with t0 s0 have "scroll_loop 200 static_empty_page 0 {} (- 1)
      = Some (Inr (found static_empty_page (max (0 + 1) 2), max (0 + 1) 2))" by blast
  then have l0: "scroll_loop 200 static_empty_page 0 {} (- 1) = Some (Inr ({}, 2))"
    by (simp add: f0)
  show ?thesis by (intro conjI) (rule sc, rule l, rule r, rule s0, rule l0)
qed

end
